theory Spec2Isabelle
  imports Main "HOL-Library.Word"
begin

unbundle bit_operations_syntax

section \<open>Python values used by the simulator\<close>

text \<open>
  A Python \<open>bytes\<close> object is a list of 8-bit words; Python integers are unbounded
  and modelled as \<open>int\<close>. Every exception the modelled code can raise is a
  constructor of \<open>error\<close>.
\<close>

type_synonym byte = "8 word"
type_synonym bytes = "byte list"

datatype error =
    OverflowError
  | TypeError
  | ValueError
  | AssertionError
  | IndexError
  | KeyError
  | AddressValueError
  | NoRouteToHost

text \<open>\<open>bs[i:j]\<close> for \<open>0 \<le> i \<le> j\<close>, and \<open>bs[i:]\<close>: slices never raise, they truncate.\<close>

definition slice :: "nat \<Rightarrow> nat \<Rightarrow> 'a list \<Rightarrow> 'a list" where
  "slice i j bs = take (j - i) (drop i bs)"

definition slice_from :: "nat \<Rightarrow> 'a list \<Rightarrow> 'a list" where
  "slice_from i bs = drop i bs"

text \<open>\<open>int.from_bytes(bs, "big")\<close>.\<close>

definition from_bytes_big :: "bytes \<Rightarrow> int" where
  "from_bytes_big bs = foldl (\<lambda>acc b. acc * 256 + uint b) 0 bs"

text \<open>
  \<open>x.to_bytes(n, "big")\<close>: the \<open>n\<close> base-256 digits of \<open>x\<close>, most significant
  first; OverflowError when \<open>x\<close> is negative or does not fit.
\<close>

fun be_digits :: "nat \<Rightarrow> int \<Rightarrow> bytes" where
  "be_digits 0 x = []"
| "be_digits (Suc n) x = be_digits n (x div 256) @ [word_of_int (x mod 256)]"

definition to_bytes_big :: "nat \<Rightarrow> int \<Rightarrow> error + bytes" where
  "to_bytes_big n x =
     (if x < 0 \<or> 256 ^ n \<le> x then Inl OverflowError else Inr (be_digits n x))"

definition BROADCAST_MAC :: bytes where
  "BROADCAST_MAC = [0xff, 0xff, 0xff, 0xff, 0xff, 0xff]"

definition MARE_PROTONUM :: int where
  "MARE_PROTONUM = 0x0806"

section \<open>Link frames (class Frame of epona.py)\<close>

record frame =
  protocol :: int
  dstMacAdr :: bytes
  sourceMacAdr :: bytes
  datagram :: bytes
  checksum :: bytes

text \<open>\<open>Frame.toBytes\<close>: the five fields concatenated; only \<open>to_bytes\<close> can raise.\<close>

definition toBytes :: "frame \<Rightarrow> error + bytes" where
  "toBytes f =
     (case to_bytes_big 6 (protocol f) of
        Inl e \<Rightarrow> Inl e
      | Inr p \<Rightarrow> Inr (p @ dstMacAdr f @ sourceMacAdr f @ checksum f @ datagram f))"

text \<open>
  \<open>Frame.CreateChecksum\<close> first overwrites the object's checksum field with the empty
  byte string, then XORs every byte of the serialised object into an integer and
  returns its four big-endian bytes. The mutated object is returned next to the result;
  the mutation persists when \<open>toBytes\<close> raises.
\<close>

definition xor_loop :: "bytes \<Rightarrow> int" where
  "xor_loop checksumData = foldl (\<lambda>c b. c XOR uint b) 0 checksumData"

definition CreateChecksum :: "frame \<Rightarrow> frame \<times> (error + bytes)" where
  "CreateChecksum f =
     (let f' = f\<lparr>checksum := []\<rparr> in
      (f', case toBytes f' of
             Inl e \<Rightarrow> Inl e
           | Inr checksumData \<Rightarrow> to_bytes_big 4 (xor_loop checksumData)))"

text \<open>
  \<open>Frame.__init__\<close>: stores the four arguments and sets the checksum field to the
  result of \<open>CreateChecksum\<close>; an exception there aborts the construction.
\<close>

definition Frame :: "int \<Rightarrow> bytes \<Rightarrow> bytes \<Rightarrow> bytes \<Rightarrow> error + frame" where
  "Frame p d s g =
     (let self = \<lparr>protocol = p, dstMacAdr = d, sourceMacAdr = s, datagram = g,
                  checksum = []\<rparr> in
      case CreateChecksum self of
        (self', Inl e) \<Rightarrow> Inl e
      | (self', Inr c) \<Rightarrow> Inr (self'\<lparr>checksum := c\<rparr>))"

text \<open>
  \<open>Frame.toFrame\<close>: slices the buffer at the offsets 6, 12, 18 and 22, builds a Frame from
  the slices and then overwrites its checksum with the bytes 18..22 of the buffer. There is
  no length check.
\<close>

definition toFrame :: "bytes \<Rightarrow> error + frame" where
  "toFrame byteStream =
     (let protocol = from_bytes_big (slice 0 6 byteStream);
          dstMacAdr = slice 6 12 byteStream;
          sourceMacAdr = slice 12 18 byteStream;
          checksum = slice 18 22 byteStream;
          datagram = slice_from 22 byteStream
      in case Frame protocol dstMacAdr sourceMacAdr datagram of
           Inl e \<Rightarrow> Inl e
         | Inr frame \<Rightarrow> Inr (frame\<lparr>checksum := checksum\<rparr>))"

text \<open>
  \<open>Frame.ConfirmChecksum\<close>: remembers the stored checksum, recomputes (which empties the
  field) and compares. Returns the mutated object and the verdict.
\<close>

definition ConfirmChecksum :: "frame \<Rightarrow> frame \<times> (error + bool)" where
  "ConfirmChecksum f =
     (let originalChecksum = checksum f in
      case CreateChecksum f of
        (f', Inl e) \<Rightarrow> (f', Inl e)
      | (f', Inr c) \<Rightarrow> (f', Inr (c = originalChecksum)))"

text \<open>
  Flipping bit \<open>k\<close> of the byte at position \<open>pos\<close>, written as the link's corruption code
  writes it: \<open>before + bytes((byte ^ (1 << k),)) + after\<close>.
\<close>

definition flip_bit :: "nat \<Rightarrow> nat \<Rightarrow> bytes \<Rightarrow> bytes" where
  "flip_bit pos k frm =
     take pos frm @ [(frm ! pos) XOR push_bit k 1] @ drop (pos + 1) frm"

text \<open>
  Proof-side abbreviations: the XOR of a byte string as a byte, and the checksum field the
  constructor computes for given fields.
\<close>

definition xsum :: "bytes \<Rightarrow> byte" where
  "xsum bs = foldl (XOR) 0 bs"

definition csum :: "int \<Rightarrow> bytes \<Rightarrow> bytes \<Rightarrow> bytes \<Rightarrow> bytes" where
  "csum p d s g = [0, 0, 0, xsum (be_digits 6 p @ d @ s @ g)]"

section \<open>The broadcast link (class BroadcastLink of physical.py)\<close>

text \<open>
  The attached nodes are a Python set; the model keeps them as a list without duplicates,
  in the order the \<open>for\<close> loop of \<open>tx\<close> iterates. The one-shot corruption flag is
  \<open>corrupt\<close>. The third field is not a field of the object: \<open>clock\<close> counts the calls
  made so far to the random generator and to receivers, and indexes the two oracles that
  stand for them. The debug hexdump writes to stderr only and is left out.
\<close>

record 'n link =
  nodes :: "'n list"
  corrupt :: bool
  clock :: nat

definition new_link :: "'n link" where
  "new_link = \<lparr>nodes = [], corrupt = False, clock = 0\<rparr>"

definition attach :: "'n link \<Rightarrow> 'n \<Rightarrow> 'n link" where
  "attach l node = l\<lparr>nodes := (if node \<in> set (nodes l) then nodes l else nodes l @ [node])\<rparr>"

definition detach :: "'n link \<Rightarrow> 'n \<Rightarrow> error + 'n link" where
  "detach l node =
     (if node \<in> set (nodes l) then Inr (l\<lparr>nodes := removeAll node (nodes l)\<rparr>)
      else Inl KeyError)"

definition corrupt_next :: "'n link \<Rightarrow> 'n link" where
  "corrupt_next l = l\<lparr>corrupt := True\<rparr>"

text \<open>
  The argument of \<open>tx\<close> is any Python object; \<open>isinstance(frame, ByteString)\<close> tells
  byte sequences (bytes, bytearray) from everything else.
\<close>

datatype txarg = ByteString bytes | NotByteString

text \<open>
  \<open>random.randint(a, b)\<close>: ValueError on an empty range, otherwise some integer of
  \<open>[a, b]\<close>; the generator's raw output \<open>r\<close> is a parameter.
\<close>

definition randint :: "nat \<Rightarrow> int \<Rightarrow> int \<Rightarrow> error + int" where
  "randint r a b = (if b < a then Inl ValueError else Inr (a + int r mod (b - a + 1)))"

text \<open>
  The corruption step of \<open>tx\<close>: one random byte, one random bit of it. \<open>rng t\<close> is the raw
  output of the generator at its \<open>t\<close>-th call.
\<close>

definition corrupt_frame :: "(nat \<Rightarrow> nat) \<Rightarrow> nat \<Rightarrow> bytes \<Rightarrow> error + bytes" where
  "corrupt_frame rng t frm =
     (case randint (rng t) 0 (int (length frm) - 1) of
        Inl e \<Rightarrow> Inl e
      | Inr pos \<Rightarrow>
          (case randint (rng (t + 1)) 0 7 of
             Inl e \<Rightarrow> Inl e
           | Inr k \<Rightarrow> Inr (flip_bit (nat pos) (nat k) frm)))"

text \<open>
  A receiver is foreign code (\<open>rx_link\<close> is abstract in \<open>Node\<close>). What it does to the link
  while it is called is to transmit, as the repository's adapters and switches do when they
  answer or forward; no node of the repository calls \<open>attach\<close>, \<open>detach\<close> or
  \<open>corrupt_next\<close> from inside \<open>rx_link\<close>, and the model has no such receiver.
  \<open>rcv t node frm\<close> is what \<open>node.rx_link(link, frm)\<close> does when the clock is \<open>t\<close>: the
  transmissions (sender, buffer) it makes on this link, in order, and the exception it
  raises at the end, if any. It catches nothing, so an exception of one of its
  transmissions ends it at once.

  What happens is recorded as events: \<open>Started d sender c\<close>, a call of \<open>tx\<close> by
  \<open>sender\<close> at a moment when the flag is \<open>c\<close>; \<open>RxLink d node frm\<close>, a call of
  \<open>rx_link\<close>; and \<open>Returned d\<close>, a normal return of a \<open>tx\<close>. \<open>d\<close> is the nesting
  depth, 0 for the transmission looked at and its own receivers, 1 for the transmissions
  these receivers make and their receivers, and so on.
\<close>

type_synonym 'n reaction = "('n \<times> txarg) list \<times> error option"

datatype 'n link_event = Started nat 'n bool | RxLink nat 'n bytes | Returned nat

fun deeper :: "'n link_event \<Rightarrow> 'n link_event" where
  "deeper (Started d sender c) = Started (Suc d) sender c"
| "deeper (RxLink d node frm) = RxLink (Suc d) node frm"
| "deeper (Returned d) = Returned (Suc d)"

type_synonym 'n txresult = "('n link \<times> 'n link_event list \<times> error option) option"

text \<open>The transmissions a receiver makes, one after the other; an exception ends them.\<close>

primrec run_sends ::
  "('n link \<Rightarrow> 'n \<Rightarrow> txarg \<Rightarrow> 'n txresult) \<Rightarrow> ('n \<times> txarg) list \<Rightarrow> 'n link \<Rightarrow> 'n txresult"
where
  "run_sends nested_tx [] l = Some (l, [], None)"
| "run_sends nested_tx (c # cs) l =
     (case nested_tx l (fst c) (snd c) of
        None \<Rightarrow> None
      | Some (l1, evs, Some e) \<Rightarrow> Some (l1, evs, Some e)
      | Some (l1, evs, None) \<Rightarrow>
          (case run_sends nested_tx cs l1 of
             None \<Rightarrow> None
           | Some (l2, evs', r) \<Rightarrow> Some (l2, evs @ evs', r)))"

text \<open>One call \<open>node.rx_link(self, frame)\<close>.\<close>

definition rx_link ::
  "('n link \<Rightarrow> 'n \<Rightarrow> txarg \<Rightarrow> 'n txresult) \<Rightarrow> (nat \<Rightarrow> 'n \<Rightarrow> bytes \<Rightarrow> 'n reaction) \<Rightarrow>
     'n \<Rightarrow> bytes \<Rightarrow> 'n link \<Rightarrow> 'n txresult"
where
  "rx_link nested_tx rcv node frm l =
     (case rcv (clock l) node frm of
        (sends, raised) \<Rightarrow>
          (case run_sends nested_tx sends (l\<lparr>clock := clock l + 1\<rparr>) of
             None \<Rightarrow> None
           | Some (l1, evs, Some e) \<Rightarrow> Some (l1, RxLink 0 node frm # map deeper evs, Some e)
           | Some (l1, evs, None) \<Rightarrow> Some (l1, RxLink 0 node frm # map deeper evs, raised)))"

text \<open>
  The delivery loop \<open>for node in self._nodes: if node != sender: node.rx_link(self, frame)\<close>,
  over the nodes still to visit. An exception of a receiver ends it.
\<close>

primrec deliver ::
  "('n link \<Rightarrow> 'n \<Rightarrow> txarg \<Rightarrow> 'n txresult) \<Rightarrow> (nat \<Rightarrow> 'n \<Rightarrow> bytes \<Rightarrow> 'n reaction) \<Rightarrow>
     'n \<Rightarrow> bytes \<Rightarrow> 'n list \<Rightarrow> 'n link \<Rightarrow> 'n txresult"
where
  "deliver nested_tx rcv sender frm [] l = Some (l, [], None)"
| "deliver nested_tx rcv sender frm (node # rest) l =
     (if node \<noteq> sender then
        (case rx_link nested_tx rcv node frm l of
           None \<Rightarrow> None
         | Some (l1, evs, Some e) \<Rightarrow> Some (l1, evs, Some e)
         | Some (l1, evs, None) \<Rightarrow>
             (case deliver nested_tx rcv sender frm rest l1 of
                None \<Rightarrow> None
              | Some (l2, evs', r) \<Rightarrow> Some (l2, evs @ evs', r)))
      else deliver nested_tx rcv sender frm rest l)"

text \<open>
  \<open>BroadcastLink.tx\<close>, with the \<open>tx\<close> that receivers call as a parameter. The result is the
  link afterwards, the events, and the exception raised (\<open>None\<close>: returned normally). The
  flag is reset by the last statement only, which an exception skips.
\<close>

definition link_tx_body ::
  "('n link \<Rightarrow> 'n \<Rightarrow> txarg \<Rightarrow> 'n txresult) \<Rightarrow> (nat \<Rightarrow> 'n \<Rightarrow> bytes \<Rightarrow> 'n reaction) \<Rightarrow>
     (nat \<Rightarrow> nat) \<Rightarrow> 'n link \<Rightarrow> 'n \<Rightarrow> txarg \<Rightarrow> 'n txresult"
where
  "link_tx_body nested_tx rcv rng l sender frame =
     (let started = Started 0 sender (corrupt l) in
      if sender \<notin> set (nodes l) then Some (l, [started], Some AssertionError)
      else case frame of
        NotByteString \<Rightarrow> Some (l, [started], Some TypeError)
      | ByteString buf \<Rightarrow>
          (case (if corrupt l then corrupt_frame rng (clock l) buf else Inr buf) of
             Inl e \<Rightarrow> Some (l, [started], Some e)
           | Inr frm \<Rightarrow>
               (case deliver nested_tx rcv sender frm (nodes l)
                       (if corrupt l then l\<lparr>clock := clock l + 2\<rparr> else l) of
                  None \<Rightarrow> None
                | Some (l1, evs, Some e) \<Rightarrow> Some (l1, started # evs, Some e)
                | Some (l1, evs, None) \<Rightarrow>
                    Some (l1\<lparr>corrupt := False\<rparr>, started # evs @ [Returned 0], None))))"

text \<open>
  Receivers can transmit from inside \<open>rx_link\<close>, and the receivers of those transmissions
  again: the first argument bounds the nesting depth, and the result \<open>None\<close> means that the
  bound was reached.
\<close>

primrec tx ::
  "nat \<Rightarrow> (nat \<Rightarrow> 'n \<Rightarrow> bytes \<Rightarrow> 'n reaction) \<Rightarrow> (nat \<Rightarrow> nat) \<Rightarrow> 'n link \<Rightarrow> 'n \<Rightarrow> txarg \<Rightarrow>
     'n txresult"
where
  "tx 0 rcv rng l sender frame = None"
| "tx (Suc n) rcv rng l sender frame = link_tx_body (tx n rcv rng) rcv rng l sender frame"

text \<open>Two buffers that differ in exactly one bit of exactly one byte.\<close>

definition one_bit_apart :: "bytes \<Rightarrow> bytes \<Rightarrow> bool" where
  "one_bit_apart a b =
     (length a = length b \<and>
      (\<exists>pos < length a. \<exists>k < 8.
         b ! pos = (a ! pos) XOR push_bit k 1 \<and>
         (\<forall>i < length a. i \<noteq> pos \<longrightarrow> b ! i = a ! i)))"

text \<open>
  The buffers a transmission delivered to its own receivers, these receivers, and whether
  some transmission, nested ones included, returned normally.
\<close>

fun own_delivery :: "'n link_event \<Rightarrow> ('n \<times> bytes) list" where
  "own_delivery (RxLink 0 node frm) = [(node, frm)]"
| "own_delivery e = []"

definition own_deliveries :: "'n link_event list \<Rightarrow> ('n \<times> bytes) list" where
  "own_deliveries evs = concat (map own_delivery evs)"

fun is_Returned :: "'n link_event \<Rightarrow> bool" where
  "is_Returned (Returned d) = True"
| "is_Returned e = False"

definition some_returned :: "'n link_event list \<Rightarrow> bool" where
  "some_returned evs = list_ex is_Returned evs"

text \<open>
  \<open>starts_see c evs\<close>: every \<open>tx\<close> that starts in \<open>evs\<close> before the first normal return
  of a \<open>tx\<close> finds the flag equal to \<open>c\<close>, and every later one finds it clear.
\<close>

fun starts_see :: "bool \<Rightarrow> 'n link_event list \<Rightarrow> bool" where
  "starts_see c [] = True"
| "starts_see c (Started d sender c' # evs) = (c' = c \<and> starts_see c evs)"
| "starts_see c (RxLink d node frm # evs) = starts_see c evs"
| "starts_see c (Returned d # evs) = starts_see False evs"

text \<open>
  Calls of \<open>tx\<close> made one after the other by a caller that catches what they raise (as
  the tests do with \<open>assertRaises\<close>), with the events of all of them.
\<close>

primrec tx_seq ::
  "nat \<Rightarrow> (nat \<Rightarrow> 'n \<Rightarrow> bytes \<Rightarrow> 'n reaction) \<Rightarrow> (nat \<Rightarrow> nat) \<Rightarrow> ('n \<times> txarg) list \<Rightarrow>
     'n link \<Rightarrow> ('n link \<times> 'n link_event list) option"
where
  "tx_seq n rcv rng [] l = Some (l, [])"
| "tx_seq n rcv rng (c # cs) l =
     (case tx n rcv rng l (fst c) (snd c) of
        None \<Rightarrow> None
      | Some (l1, evs, r) \<Rightarrow>
          (case tx_seq n rcv rng cs l1 of
             None \<Rightarrow> None
           | Some (l2, evs') \<Rightarrow> Some (l2, evs @ evs')))"

text \<open>A receiver that returns without touching the link.\<close>

definition silent :: "nat \<Rightarrow> 'n \<Rightarrow> bytes \<Rightarrow> 'n reaction" where
  "silent t node frm = ([], None)"

section \<open>The learning switch (MultiportNode of physical.py, EponaSwitch of epona.py)\<close>

text \<open>
  A switch has \<open>nports\<close> port slots, each empty or holding a link, and the switching table,
  a dict from hardware address to port number. Port numbers are Python integers. The links
  are foreign objects: \<open>link_tx link frm\<close> is the exception \<open>link.tx(self, frm)\<close> raises, if
  any. Every transmission the switch starts is recorded as (port, link, bytes).
\<close>

record 'l switch =
  nports :: nat
  ports :: "'l option list"
  switchingTable :: "bytes \<rightharpoonup> int"

type_synonym 'l transmission = "int \<times> 'l \<times> bytes"

text \<open>\<open>MultiportNode.__init__\<close> and \<open>EponaSwitch.__init__\<close>.\<close>

definition new_switch :: "nat \<Rightarrow> 'l switch" where
  "new_switch num_ports =
     \<lparr>nports = num_ports, ports = replicate num_ports None, switchingTable = Map.empty\<rparr>"

text \<open>
  \<open>MultiportNode.forward\<close>: IndexError for a port outside \<open>range(len(self._ports))\<close>,
  nothing for an empty slot, otherwise \<open>link.tx(self, frame)\<close>.
\<close>

definition forward ::
  "('l \<Rightarrow> bytes \<Rightarrow> error option) \<Rightarrow> 'l switch \<Rightarrow> int \<Rightarrow> bytes \<Rightarrow>
     'l transmission list \<times> error option"
where
  "forward link_tx sw outport frm =
     (if outport < 0 \<or> int (length (ports sw)) \<le> outport then ([], Some IndexError)
      else case ports sw ! nat outport of
        None \<Rightarrow> ([], None)
      | Some link \<Rightarrow> ([(outport, link, frm)], link_tx link frm))"

text \<open>
  \<open>EponaSwitch.broadcast\<close>: the \<open>while index < self.nports\<close> loop, from \<open>index\<close> on. An
  exception of \<open>forward\<close> ends it.
\<close>

function broadcast_loop ::
  "('l \<Rightarrow> bytes \<Rightarrow> error option) \<Rightarrow> 'l switch \<Rightarrow> bytes \<Rightarrow> int \<Rightarrow> nat \<Rightarrow>
     'l transmission list \<times> error option"
where
  "broadcast_loop link_tx sw frm port index =
     (if index < nports sw then
        (if int index \<noteq> port then
           (case forward link_tx sw (int index) frm of
              (txs, Some e) \<Rightarrow> (txs, Some e)
            | (txs, None) \<Rightarrow>
                (case broadcast_loop link_tx sw frm port (index + 1) of
                   (txs', r) \<Rightarrow> (txs @ txs', r)))
         else broadcast_loop link_tx sw frm port (index + 1))
      else ([], None))"
  by pat_completeness auto
termination
  by (relation "measure (\<lambda>(link_tx, sw, frm, port, index). nports sw - index)") auto

definition broadcast ::
  "('l \<Rightarrow> bytes \<Rightarrow> error option) \<Rightarrow> 'l switch \<Rightarrow> bytes \<Rightarrow> int \<Rightarrow>
     'l transmission list \<times> error option"
where
  "broadcast link_tx sw frm port = broadcast_loop link_tx sw frm port 0"

text \<open>
  \<open>EponaSwitch.rx\<close>. The result is the switch afterwards, the transmissions started, and
  the exception raised (\<open>None\<close>: returned normally).
\<close>

definition switch_rx ::
  "('l \<Rightarrow> bytes \<Rightarrow> error option) \<Rightarrow> 'l switch \<Rightarrow> int \<Rightarrow> bytes \<Rightarrow>
     'l switch \<times> 'l transmission list \<times> error option"
where
  "switch_rx link_tx sw port frm =
     (case toFrame frm of
        Inl e \<Rightarrow> (sw, [], Some e)
      | Inr completeFrame \<Rightarrow>
          (case ConfirmChecksum completeFrame of
             (completeFrame, Inl e) \<Rightarrow> (sw, [], Some e)
           | (completeFrame, Inr ok) \<Rightarrow>
               if \<not> ok then (sw, [], None)
               else
                 (case switchingTable sw (dstMacAdr completeFrame) of
                    Some p \<Rightarrow>
                      if p \<noteq> port then
                        (case forward link_tx sw p frm of (txs, r) \<Rightarrow> (sw, txs, r))
                      else (sw, [], None)
                  | None \<Rightarrow>
                      (let sw' = sw\<lparr>switchingTable :=
                                      (switchingTable sw)(sourceMacAdr completeFrame \<mapsto> port)\<rparr>
                       in case broadcast link_tx sw' frm port of
                            (txs, r) \<Rightarrow> (sw', txs, r)))))"

text \<open>The transmissions of a flood: every plugged port except the ingress port, in order.\<close>

definition flood_list :: "'l switch \<Rightarrow> bytes \<Rightarrow> int \<Rightarrow> nat \<Rightarrow> 'l transmission list" where
  "flood_list sw frm port index =
     concat (map (\<lambda>i. if int i \<noteq> port then
                         (case ports sw ! i of None \<Rightarrow> [] | Some link \<Rightarrow> [(int i, link, frm)])
                       else [])
                 [index ..< nports sw])"

section \<open>Address-resolution payloads (class ArpFrame of epona.py)\<close>

record arp_frame =
  arp_dstMacAdr :: bytes
  arp_sourceMacAdr :: bytes
  dstIpAdr :: bytes
  sourceIpAdr :: bytes
  isSuccess :: bytes

text \<open>The success marker is the four ASCII characters \<open>0xff\<close>, as the source writes it.\<close>

definition success_marker :: bytes where
  "success_marker = [0x30, 0x78, 0x66, 0x66]"

definition ArpFrame :: "bytes \<Rightarrow> bytes \<Rightarrow> bytes \<Rightarrow> bytes \<Rightarrow> bool \<Rightarrow> arp_frame" where
  "ArpFrame d s di si isSuccessfulFlag =
     \<lparr>arp_dstMacAdr = d, arp_sourceMacAdr = s, dstIpAdr = di, sourceIpAdr = si,
      isSuccess = (if isSuccessfulFlag then success_marker else [])\<rparr>"

definition ArpFrame_toFrame :: "bytes \<Rightarrow> arp_frame" where
  "ArpFrame_toFrame byteStream =
     ArpFrame (slice 0 6 byteStream) (slice 6 12 byteStream) (slice 12 16 byteStream)
       (slice 16 20 byteStream) (slice_from 20 byteStream \<noteq> [])"

definition ArpFrame_toBytes :: "arp_frame \<Rightarrow> bytes" where
  "ArpFrame_toBytes a =
     arp_dstMacAdr a @ arp_sourceMacAdr a @ dstIpAdr a @ sourceIpAdr a @ isSuccess a"

section \<open>The adapter (Adapter of physical.py, EponaAdapter of epona.py)\<close>

text \<open>
  What the adapter does to the outside is recorded as a trace: a frame handed to the link,
  a datagram handed to the upper layer (\<open>self.input\<close>), a call of
  \<open>self.timeout.wait(0.1)\<close>.
\<close>

datatype event = Tx bytes | Input int bytes | TimeoutWait

text \<open>
  The fields of the object: the hardware address, the interface (packed address and prefix
  length), the packed gateway address, whether a link is plugged, the resolution cache, the
  success flag and the state of the \<open>threading.Event\<close>. Two more fields stand for the
  outside: \<open>trace\<close>, and \<open>net\<close>, what the link does during each transmission of this
  adapter, one entry per transmission. The link calls the receivers synchronously and
  catches nothing, so an entry is the frames delivered back to this adapter meanwhile (the
  other nodes' answers, each a nested call of its \<open>rx\<close>) and then the exception that
  comes out of \<open>link.tx\<close>, if any: one raised inside another node's \<open>rx\<close>, which ends the
  transmission. An exception of this adapter's own \<open>rx\<close> travels the same way back into
  the transmitting call.
\<close>

record adapter =
  hwaddr :: bytes
  iface_ip :: bytes
  iface_prefixlen :: nat
  gateway :: bytes
  plugged :: bool
  arpTable :: "bytes \<rightharpoonup> bytes"
  arpMessageRecieved :: bool
  timeout :: bool
  trace :: "event list"
  net :: "(bytes list \<times> error option) list"

datatype outcome = Ok | Raise error

type_synonym result = "(adapter \<times> outcome) option"

text \<open>
  \<open>IPv4Address(addr) in self.iface.network\<close> for a 4-byte \<open>addr\<close>: the address and the
  interface address agree on the first \<open>prefixlen\<close> bits.
\<close>

definition in_network :: "adapter \<Rightarrow> bytes \<Rightarrow> bool" where
  "in_network a addr =
     (from_bytes_big addr div 2 ^ (32 - iface_prefixlen a) =
      from_bytes_big (iface_ip a) div 2 ^ (32 - iface_prefixlen a))"

text \<open>Sequencing: an exception or a missing result ends the computation.\<close>

definition then_do :: "result \<Rightarrow> (adapter \<Rightarrow> result) \<Rightarrow> result" where
  "then_do r k =
     (case r of
        None \<Rightarrow> None
      | Some (s, Raise e) \<Rightarrow> Some (s, Raise e)
      | Some (s, Ok) \<Rightarrow> k s)"

text \<open>The link calling \<open>rx\<close> for each frame of a list, in order.\<close>

primrec deliver_all :: "(bytes \<Rightarrow> adapter \<Rightarrow> result) \<Rightarrow> bytes list \<Rightarrow> adapter \<Rightarrow> result" where
  "deliver_all rcv [] s = Some (s, Ok)"
| "deliver_all rcv (f # fs) s = then_do (rcv f s) (deliver_all rcv fs)"

definition successfulArpMessageRecieved :: "adapter \<Rightarrow> adapter" where
  "successfulArpMessageRecieved s = s\<lparr>arpMessageRecieved := True, timeout := True\<rparr>"

text \<open>
  The methods of EponaAdapter call each other in a cycle (\<open>output_ip\<close> transmits, the link
  delivers a reply to \<open>rx\<close>, which answers through \<open>output_ip\<close>), and \<open>output_ip\<close> calls
  itself after a resolution. Each method is first written with the methods it calls as
  parameters (named as in the source); \<open>exec\<close> then ties them together under a bound on
  the depth of calls, and the result \<open>None\<close> means that the bound was reached.
\<close>

text \<open>\<open>EponaAdapter.rx\<close>.\<close>

definition rx_body :: "(bytes \<Rightarrow> adapter \<Rightarrow> result) \<Rightarrow> bytes \<Rightarrow> adapter \<Rightarrow> result" where
  "rx_body arpFrameRecievedProcedure frm s =
     (case toFrame frm of
        Inl e \<Rightarrow> Some (s, Raise e)
      | Inr completeFrame \<Rightarrow>
          (case ConfirmChecksum completeFrame of
             (completeFrame, Inl e) \<Rightarrow> Some (s, Raise e)
           | (completeFrame, Inr ok) \<Rightarrow>
               if \<not> ok then Some (s, Ok)
               else if protocol completeFrame = MARE_PROTONUM then
                 arpFrameRecievedProcedure frm s
               else if hwaddr s = dstMacAdr completeFrame \<or>
                       BROADCAST_MAC = dstMacAdr completeFrame then
                 Some (s\<lparr>trace := trace s @
                           [Input (protocol completeFrame) (datagram completeFrame)]\<rparr>, Ok)
               else Some (s, Ok)))"

text \<open>\<open>EponaAdapter.arpFrameRecievedProcedure\<close>.\<close>

definition arpFrameRecievedProcedure_body ::
  "(int \<Rightarrow> bytes \<Rightarrow> bytes \<Rightarrow> adapter \<Rightarrow> result) \<Rightarrow> bytes \<Rightarrow> adapter \<Rightarrow> result"
where
  "arpFrameRecievedProcedure_body output_ip frm s =
     (case toFrame frm of
        Inl e \<Rightarrow> Some (s, Raise e)
      | Inr f \<Rightarrow>
          (let completeFrame = ArpFrame_toFrame (datagram f) in
           if dstIpAdr completeFrame = iface_ip s then
             (let s1 = s\<lparr>arpTable := (arpTable s)(sourceIpAdr completeFrame \<mapsto>
                                         arp_sourceMacAdr completeFrame)\<rparr> in
              if isSuccess completeFrame = success_marker \<and>
                 arp_dstMacAdr completeFrame = hwaddr s1 then
                Some (successfulArpMessageRecieved s1, Ok)
              else
                output_ip MARE_PROTONUM (sourceIpAdr completeFrame)
                  (ArpFrame_toBytes
                     (ArpFrame (arp_sourceMacAdr completeFrame) (hwaddr s1)
                        (sourceIpAdr completeFrame) (iface_ip s1) True))
                  s1)
           else Some (s, Ok)))"

text \<open>
  \<open>EponaAdapter.output_ip\<close>. \<open>IPv4Address(addr)\<close> raises AddressValueError unless
  \<open>addr\<close> has four bytes.
\<close>

definition output_ip_body ::
  "(int \<Rightarrow> bytes \<Rightarrow> bytes \<Rightarrow> adapter \<Rightarrow> result) \<Rightarrow> (bytes \<Rightarrow> adapter \<Rightarrow> result) \<Rightarrow>
   (int \<Rightarrow> bytes \<Rightarrow> bytes \<Rightarrow> adapter \<Rightarrow> result) \<Rightarrow>
   int \<Rightarrow> bytes \<Rightarrow> bytes \<Rightarrow> adapter \<Rightarrow> result"
where
  "output_ip_body output_ip arpIpDiscoverProcess output protonum addr dgram s =
     (if length addr \<noteq> 4 then Some (s, Raise AddressValueError)
      else if \<not> in_network s addr then
        then_do
          (if arpTable s (gateway s) = None then arpIpDiscoverProcess (gateway s) s
           else Some (s, Ok))
          (\<lambda>s1. output_ip protonum (gateway s1) dgram s1)
      else if arpTable s addr \<noteq> None then
        output protonum (the (arpTable s addr)) dgram s
      else
        then_do (arpIpDiscoverProcess addr s)
          (\<lambda>s1. output_ip protonum addr dgram s1))"

text \<open>
  \<open>EponaAdapter.arpIpDiscoverProcess\<close>: the request is built once, the event is cleared,
  and the \<open>while count > 0\<close> loop starts with \<open>count = 3\<close>.
\<close>

definition arpIpDiscoverProcess_body ::
  "(bytes \<Rightarrow> nat \<Rightarrow> adapter \<Rightarrow> result) \<Rightarrow> bytes \<Rightarrow> adapter \<Rightarrow> result"
where
  "arpIpDiscoverProcess_body discover_loop addr s =
     (let arpFrameBytes =
            ArpFrame_toBytes (ArpFrame (hwaddr s) (hwaddr s) addr (iface_ip s) False)
      in discover_loop arpFrameBytes 3 (s\<lparr>timeout := False\<rparr>))"

text \<open>One test of the loop condition and, when it holds, one pass through the loop body.\<close>

definition discover_loop_body ::
  "(bytes \<Rightarrow> nat \<Rightarrow> adapter \<Rightarrow> result) \<Rightarrow> (int \<Rightarrow> bytes \<Rightarrow> bytes \<Rightarrow> adapter \<Rightarrow> result) \<Rightarrow>
   bytes \<Rightarrow> nat \<Rightarrow> adapter \<Rightarrow> result"
where
  "discover_loop_body discover_loop output arpFrameBytes count s =
     (if count > 0 then
        then_do (output MARE_PROTONUM BROADCAST_MAC arpFrameBytes s)
          (\<lambda>s1.
             let s2 = s1\<lparr>trace := trace s1 @ [TimeoutWait]\<rparr> in
             if arpMessageRecieved s2 then Some (s2\<lparr>arpMessageRecieved := False\<rparr>, Ok)
             else discover_loop arpFrameBytes (count - 1) s2)
      else Some (s, Raise NoRouteToHost))"

text \<open>\<open>EponaAdapter.output\<close>.\<close>

definition output_body ::
  "(bytes \<Rightarrow> adapter \<Rightarrow> result) \<Rightarrow> int \<Rightarrow> bytes \<Rightarrow> bytes \<Rightarrow> adapter \<Rightarrow> result"
where
  "output_body self_tx protonum dst dgram s =
     (case Frame protonum dst (hwaddr s) dgram of
        Inl e \<Rightarrow> Some (s, Raise e)
      | Inr frame \<Rightarrow>
          (case toBytes frame of
             Inl e \<Rightarrow> Some (s, Raise e)
           | Inr bs \<Rightarrow> self_tx bs s))"

text \<open>
  \<open>Adapter.tx\<close>: nothing without a link; otherwise \<open>self._link.tx(self, frame)\<close>: the
  link calls \<open>rx\<close> of this adapter for every frame the other nodes send back meanwhile,
  and an exception raised in another node ends the call and is raised here.
\<close>

definition tx_body :: "(bytes \<Rightarrow> adapter \<Rightarrow> result) \<Rightarrow> bytes \<Rightarrow> adapter \<Rightarrow> result" where
  "tx_body rx frm s =
     (if \<not> plugged s then Some (s, Ok)
      else
        (let s1 = s\<lparr>trace := trace s @ [Tx frm]\<rparr> in
         case net s1 of
           [] \<Rightarrow> Some (s1, Ok)
         | (fs, peer_error) # rest \<Rightarrow>
             then_do (deliver_all rx fs (s1\<lparr>net := rest\<rparr>))
               (\<lambda>s2. case peer_error of
                       None \<Rightarrow> Some (s2, Ok)
                     | Some e \<Rightarrow> Some (s2, Raise e))))"

datatype call =
    Call_rx bytes
  | Call_arpFrameRecievedProcedure bytes
  | Call_output_ip int bytes bytes
  | Call_arpIpDiscoverProcess bytes
  | Call_discover_loop bytes nat
  | Call_output int bytes bytes
  | Call_tx bytes

primrec exec :: "nat \<Rightarrow> call \<Rightarrow> adapter \<Rightarrow> result" where
  "exec 0 c s = None"
| "exec (Suc n) c s =
     (case c of
        Call_rx frm \<Rightarrow>
          rx_body (\<lambda>f. exec n (Call_arpFrameRecievedProcedure f)) frm s
      | Call_arpFrameRecievedProcedure frm \<Rightarrow>
          arpFrameRecievedProcedure_body (\<lambda>p a d. exec n (Call_output_ip p a d)) frm s
      | Call_output_ip protonum addr dgram \<Rightarrow>
          output_ip_body (\<lambda>p a d. exec n (Call_output_ip p a d))
            (\<lambda>a. exec n (Call_arpIpDiscoverProcess a))
            (\<lambda>p a d. exec n (Call_output p a d)) protonum addr dgram s
      | Call_arpIpDiscoverProcess addr \<Rightarrow>
          arpIpDiscoverProcess_body (\<lambda>b c. exec n (Call_discover_loop b c)) addr s
      | Call_discover_loop arpFrameBytes count \<Rightarrow>
          discover_loop_body (\<lambda>b c. exec n (Call_discover_loop b c))
            (\<lambda>p a d. exec n (Call_output p a d)) arpFrameBytes count s
      | Call_output protonum dst dgram \<Rightarrow>
          output_body (\<lambda>b. exec n (Call_tx b)) protonum dst dgram s
      | Call_tx frm \<Rightarrow>
          tx_body (\<lambda>f. exec n (Call_rx f)) frm s)"

definition adapter_rx :: "nat \<Rightarrow> bytes \<Rightarrow> adapter \<Rightarrow> result" where
  "adapter_rx n frm = exec n (Call_rx frm)"

definition arpFrameRecievedProcedure :: "nat \<Rightarrow> bytes \<Rightarrow> adapter \<Rightarrow> result" where
  "arpFrameRecievedProcedure n frm = exec n (Call_arpFrameRecievedProcedure frm)"

definition output_ip :: "nat \<Rightarrow> int \<Rightarrow> bytes \<Rightarrow> bytes \<Rightarrow> adapter \<Rightarrow> result" where
  "output_ip n protonum addr dgram = exec n (Call_output_ip protonum addr dgram)"

definition arpIpDiscoverProcess :: "nat \<Rightarrow> bytes \<Rightarrow> adapter \<Rightarrow> result" where
  "arpIpDiscoverProcess n addr = exec n (Call_arpIpDiscoverProcess addr)"

definition discover_loop :: "nat \<Rightarrow> bytes \<Rightarrow> nat \<Rightarrow> adapter \<Rightarrow> result" where
  "discover_loop n arpFrameBytes count = exec n (Call_discover_loop arpFrameBytes count)"

definition adapter_output :: "nat \<Rightarrow> int \<Rightarrow> bytes \<Rightarrow> bytes \<Rightarrow> adapter \<Rightarrow> result" where
  "adapter_output n protonum dst dgram = exec n (Call_output protonum dst dgram)"

definition adapter_tx :: "nat \<Rightarrow> bytes \<Rightarrow> adapter \<Rightarrow> result" where
  "adapter_tx n frm = exec n (Call_tx frm)"

subsection \<open>Notions used to state the claims about the adapter\<close>

text \<open>
  The address \<open>output_ip\<close> resolves and sends to: the destination itself when it lies in the
  adapter's subnet, the gateway otherwise.
\<close>

definition next_hop :: "adapter \<Rightarrow> bytes \<Rightarrow> bytes" where
  "next_hop s addr = (if in_network s addr then addr else gateway s)"

text \<open>The fields no method assigns, and the cache only gaining keys.\<close>

definition grows :: "adapter \<Rightarrow> adapter \<Rightarrow> bool" where
  "grows s s' =
     (hwaddr s' = hwaddr s \<and> iface_ip s' = iface_ip s \<and>
      iface_prefixlen s' = iface_prefixlen s \<and> gateway s' = gateway s \<and>
      plugged s' = plugged s \<and> dom (arpTable s) \<subseteq> dom (arpTable s'))"

text \<open>Encoding a new frame, as \<open>output\<close> does: \<open>Frame(...).toBytes()\<close>.\<close>

definition encode :: "int \<Rightarrow> bytes \<Rightarrow> bytes \<Rightarrow> bytes \<Rightarrow> error + bytes" where
  "encode p d s g = (case Frame p d s g of Inl e \<Rightarrow> Inl e | Inr f \<Rightarrow> toBytes f)"

text \<open>
  A received frame that reaches the resolution handler and passes its test: checksum-valid,
  resolution protocol number, and a payload whose destination address is the adapter's.
\<close>

definition arp_for_me :: "adapter \<Rightarrow> bytes \<Rightarrow> bool" where
  "arp_for_me s frm =
     (case toFrame frm of
        Inl e \<Rightarrow> False
      | Inr f \<Rightarrow>
          snd (ConfirmChecksum f) = Inr True \<and> protocol f = MARE_PROTONUM \<and>
          dstIpAdr (ArpFrame_toFrame (datagram f)) = iface_ip s)"

text \<open>No such frame is ever delivered to the adapter.\<close>

definition quiet_net :: "adapter \<Rightarrow> bool" where
  "quiet_net s = (\<forall>r \<in> set (net s). \<forall>frm \<in> set (fst r). \<not> arp_for_me s frm)"

text \<open>No exception comes back from the link: no other node raises during a transmission.\<close>

definition link_returns :: "adapter \<Rightarrow> bool" where
  "link_returns s = (\<forall>r \<in> set (net s). snd r = None)"

fun is_Input :: "event \<Rightarrow> bool" where
  "is_Input (Input p d) = True"
| "is_Input e = False"

fun is_Tx :: "event \<Rightarrow> bool" where
  "is_Tx (Tx frm) = True"
| "is_Tx e = False"

text \<open>The adapter after some more events and some more turns of the link; nothing else differs.\<close>

definition adv :: "adapter \<Rightarrow> adapter \<Rightarrow> event list \<Rightarrow> bool" where
  "adv s s' evs = (\<exists>k. s' = s\<lparr>trace := trace s @ evs, net := drop k (net s)\<rparr>)"

text \<open>
  The adapter \<open>a\<close> of the tests' network-layer fixture: 10.23.42.192/21 with gateway
  10.23.42.60, plugged, with an empty cache.
\<close>

definition adapter_a :: adapter where
  "adapter_a =
     \<lparr>hwaddr = [0x1d, 0xe3, 0xad, 0xfc, 0x46, 0xf6], iface_ip = [10, 23, 42, 192],
      iface_prefixlen = 21, gateway = [10, 23, 42, 60], plugged = True,
      arpTable = Map.empty, arpMessageRecieved = False, timeout = False, trace = [],
      net = []\<rparr>"


text \<open>The same adapter once it knows the hardware address of its gateway.\<close>

definition adapter_a_gw :: adapter where
  "adapter_a_gw =
     adapter_a\<lparr>arpTable := [[10, 23, 42, 60] \<mapsto> [0xd4, 0xaa, 0x17, 0x52, 0x1c, 0x20]]\<rparr>"

text \<open>What a call left behind: its outcome, the trace, and a cache entry.\<close>

definition outcome_of :: "result \<Rightarrow> outcome option" where
  "outcome_of r = map_option snd r"

definition trace_of :: "result \<Rightarrow> event list option" where
  "trace_of r = map_option (trace \<circ> fst) r"

definition cache_after :: "result \<Rightarrow> bytes \<Rightarrow> bytes option" where
  "cache_after r addr = (case r of None \<Rightarrow> None | Some (s', out) \<Rightarrow> arpTable s' addr)"

section \<open>Codec lemmas\<close>

lemma xor_loop_gen:
  "foldl (\<lambda>c b. c XOR uint b) (uint (w :: byte)) bs = uint (foldl (XOR) w bs)"
  by (induction bs arbitrary: w) (simp_all add: uint_xor [symmetric])

lemma xor_loop_xsum: "xor_loop bs = uint (xsum bs)"
  using xor_loop_gen [of 0 bs] by (simp add: xor_loop_def xsum_def)

lemma foldl_xor_shift: "foldl (XOR) (w :: byte) bs = w XOR foldl (XOR) 0 bs"
proof (induction bs arbitrary: w)
  case Nil
  show ?case by simp
next
  case (Cons b bs)
  have "foldl (XOR) (w XOR b) bs = (w XOR b) XOR foldl (XOR) 0 bs"
    by (rule Cons.IH)
  moreover have "foldl (XOR) b bs = b XOR foldl (XOR) 0 bs"
    by (rule Cons.IH)
  ultimately show ?case by (simp add: xor.assoc)
qed

lemma xsum_Nil [simp]: "xsum [] = 0"
  by (simp add: xsum_def)

lemma xsum_Cons [simp]: "xsum (b # bs) = b XOR xsum bs"
  using foldl_xor_shift [of b bs] by (simp add: xsum_def)

lemma xsum_append [simp]: "xsum (as @ bs) = xsum as XOR xsum bs"
  by (induction as) (simp_all add: xor.assoc)

lemma length_be_digits [simp]: "length (be_digits n x) = n"
  by (induction n arbitrary: x) simp_all

lemma from_bytes_big_snoc:
  "from_bytes_big (bs @ [b]) = from_bytes_big bs * 256 + uint b"
  by (simp add: from_bytes_big_def)

lemma from_bytes_big_Nil [simp]: "from_bytes_big [] = 0"
  by (simp add: from_bytes_big_def)

lemma uint_byte_of_mod: "uint (word_of_int (x mod 256) :: byte) = x mod 256"
  by (simp add: uint_word_of_int)

lemma from_bytes_be_digits:
  "0 \<le> x \<Longrightarrow> x < 256 ^ n \<Longrightarrow> from_bytes_big (be_digits n x) = x"
proof (induction n arbitrary: x)
  case 0
  then show ?case by simp
next
  case (Suc n)
  have "x div 256 < 256 ^ n"
    using Suc.prems by (simp add: div_less_iff_less_mult mult.commute)
  moreover have "0 \<le> x div 256"
    using Suc.prems by simp
  ultimately have "from_bytes_big (be_digits n (x div 256)) = x div 256"
    by (rule Suc.IH [rotated])
  then show ?case
    by (simp add: from_bytes_big_snoc uint_byte_of_mod)
qed

lemma from_bytes_big_bounds:
  "0 \<le> from_bytes_big bs \<and> from_bytes_big bs < 256 ^ length bs"
proof (induction bs rule: rev_induct)
  case Nil
  show ?case by simp
next
  case (snoc b bs)
  have b: "0 \<le> uint b" "uint b < 256"
    using uint_bounded [of b] by simp_all
  from snoc b show ?case
    by (simp add: from_bytes_big_snoc)
qed

lemma be_digits_from_bytes:
  "be_digits (length bs) (from_bytes_big bs) = bs"
proof (induction bs rule: rev_induct)
  case Nil
  show ?case by simp
next
  case (snoc b bs)
  have b: "0 \<le> uint b" "uint b < 256"
    using uint_bounded [of b] by simp_all
  have d: "(from_bytes_big bs * 256 + uint b) div 256 = from_bytes_big bs"
    using b by simp
  have m: "(from_bytes_big bs * 256 + uint b) mod 256 = uint b"
    using b by simp
  have w: "word_of_int (uint b mod 256) = b"
    using b by simp
  show ?case
    using snoc by (simp add: from_bytes_big_snoc d m w)
qed

lemma be_digits_zero: "be_digits n 0 = replicate n 0"
  by (induction n) (simp_all add: replicate_append_same)

lemma be_digits_byte: "be_digits (Suc n) (uint (w :: byte)) = replicate n 0 @ [w]"
proof -
  have b: "0 \<le> uint w" "uint w < 256"
    using uint_bounded [of w] by simp_all
  then have "uint w div 256 = 0" "uint w mod 256 = uint w"
    by simp_all
  then show ?thesis
    by (simp add: be_digits_zero)
qed

lemma to_bytes_big_checksum: "to_bytes_big 4 (xor_loop bs) = Inr [0, 0, 0, xsum bs]"
proof -
  have b: "0 \<le> uint (xsum bs)" "uint (xsum bs) < 256"
    using uint_bounded [of "xsum bs"] by simp_all
  have "be_digits 4 (uint (xsum bs)) = [0, 0, 0, xsum bs]"
    using be_digits_byte [of 3 "xsum bs"] by (simp add: numeral_eq_Suc)
  with b show ?thesis
    by (simp add: to_bytes_big_def xor_loop_xsum)
qed

lemma to_bytes_big_6: "0 \<le> p \<Longrightarrow> p < 2 ^ 48 \<Longrightarrow> to_bytes_big 6 p = Inr (be_digits 6 p)"
  by (simp add: to_bytes_big_def)

lemma CreateChecksum_ok:
  "0 \<le> protocol f \<Longrightarrow> protocol f < 2 ^ 48 \<Longrightarrow>
   CreateChecksum f =
     (f\<lparr>checksum := []\<rparr>, Inr (csum (protocol f) (dstMacAdr f) (sourceMacAdr f) (datagram f)))"
  by (simp add: CreateChecksum_def toBytes_def to_bytes_big_6 to_bytes_big_checksum csum_def Let_def)

lemma Frame_ok:
  "0 \<le> p \<Longrightarrow> p < 2 ^ 48 \<Longrightarrow>
   Frame p d s g =
     Inr \<lparr>protocol = p, dstMacAdr = d, sourceMacAdr = s, datagram = g, checksum = csum p d s g\<rparr>"
  by (simp add: Frame_def CreateChecksum_ok Let_def)

lemma ConfirmChecksum_ok:
  "0 \<le> protocol f \<Longrightarrow> protocol f < 2 ^ 48 \<Longrightarrow>
   ConfirmChecksum f =
     (f\<lparr>checksum := []\<rparr>,
      Inr (csum (protocol f) (dstMacAdr f) (sourceMacAdr f) (datagram f) = checksum f))"
  by (simp add: ConfirmChecksum_def CreateChecksum_ok Let_def)

lemma from_bytes_slice_range:
  "0 \<le> from_bytes_big (slice 0 6 bs) \<and> from_bytes_big (slice 0 6 bs) < 2 ^ 48"
proof -
  have l: "length (slice 0 6 bs) \<le> 6"
    by (simp add: slice_def)
  have "from_bytes_big (slice 0 6 bs) < 256 ^ length (slice 0 6 bs)"
    using from_bytes_big_bounds by blast
  also have "(256 :: int) ^ length (slice 0 6 bs) \<le> 256 ^ 6"
    using l by (intro power_increasing) simp_all
  finally show ?thesis
    using from_bytes_big_bounds [of "slice 0 6 bs"] by simp
qed

lemma toFrame_total:
  "toFrame bs =
     Inr \<lparr>protocol = from_bytes_big (slice 0 6 bs), dstMacAdr = slice 6 12 bs,
          sourceMacAdr = slice 12 18 bs, datagram = slice_from 22 bs,
          checksum = slice 18 22 bs\<rparr>"
  using from_bytes_slice_range [of bs]
  by (simp add: toFrame_def Frame_ok Let_def)

lemma toFrame_parts:
  assumes "length P = 6" "length D = 6" "length S = 6" "length C = 4"
  shows "toFrame (P @ D @ S @ C @ G) =
     Inr \<lparr>protocol = from_bytes_big P, dstMacAdr = D, sourceMacAdr = S, datagram = G,
          checksum = C\<rparr>"
  using assms by (simp add: toFrame_total slice_def slice_from_def)

lemma be_digits_from_bytes_6: "length P = 6 \<Longrightarrow> be_digits 6 (from_bytes_big P) = P"
  using be_digits_from_bytes [of P] by simp

lemma flip_bit_append:
  "flip_bit pos k (A @ B) =
     (if pos < length A then flip_bit pos k A @ B else A @ flip_bit (pos - length A) k B)"
  by (simp add: flip_bit_def nth_append Suc_diff_le)

lemma length_flip_bit [simp]: "pos < length bs \<Longrightarrow> length (flip_bit pos k bs) = length bs"
  by (simp add: flip_bit_def)

lemma push_bit_byte_nonzero: "k < 8 \<Longrightarrow> push_bit k (1 :: byte) \<noteq> 0"
  by (simp add: push_bit_of_1 exp_eq_zero_iff)

lemma xor_mask_neq:
  assumes "m \<noteq> 0"
  shows "(x :: byte) XOR m \<noteq> x"
proof
  assume "x XOR m = x"
  then have "x XOR (x XOR m) = x XOR x"
    by simp
  then have "m = 0"
    by (simp add: xor.assoc [symmetric])
  with assms show False
    by simp
qed


lemma xsum_flip_bit:
  assumes "pos < length bs"
  shows "xsum (flip_bit pos k bs) = xsum bs XOR push_bit k 1"
proof -
  have "xsum bs = xsum (take pos bs @ bs ! pos # drop (Suc pos) bs)"
    by (rule arg_cong [where f = xsum]) (rule id_take_nth_drop [OF assms])
  then have "xsum bs = xsum (take pos bs) XOR ((bs ! pos) XOR xsum (drop (Suc pos) bs))"
    by simp
  then show ?thesis
    by (simp add: flip_bit_def xor.assoc xor.left_commute xor.commute)
qed

lemma flip_bit_neq:
  assumes "pos < length bs" "k < 8"
  shows "flip_bit pos k bs \<noteq> bs"
proof
  assume e: "flip_bit pos k bs = bs"
  have "flip_bit pos k bs ! pos = (bs ! pos) XOR push_bit k 1"
    using assms by (simp add: flip_bit_def nth_append)
  with e have "(bs ! pos) XOR push_bit k 1 = bs ! pos"
    by simp
  with xor_mask_neq [OF push_bit_byte_nonzero [OF assms(2)]] show False
    by blast
qed

lemma verify_parts:
  assumes "length P = 6" "length D = 6" "length S = 6" "length C = 4"
  shows "\<exists>f. toFrame (P @ D @ S @ C @ G) = Inr f \<and>
     snd (ConfirmChecksum f) = Inr ([0, 0, 0, xsum (P @ D @ S @ G)] = C)"
proof -
  let ?f = "\<lparr>protocol = from_bytes_big P, dstMacAdr = D, sourceMacAdr = S, datagram = G,
          checksum = C\<rparr>"
  have r: "0 \<le> protocol ?f" "protocol ?f < 2 ^ 48"
    using from_bytes_big_bounds [of P] assms(1) by simp_all
  have "snd (ConfirmChecksum ?f) = Inr ([0, 0, 0, xsum (P @ D @ S @ G)] = C)"
    using assms(1) by (simp add: ConfirmChecksum_ok [OF r] csum_def be_digits_from_bytes_6)
  then show ?thesis
    using toFrame_parts [OF assms] by simp
qed


lemma flipped_parts:
  assumes "pos < length (P @ D @ S @ C @ G)" "k < 8"
  shows "\<exists>P' D' S' C' G'.
     flip_bit pos k (P @ D @ S @ C @ G) = P' @ D' @ S' @ C' @ G' \<and>
     length P' = length P \<and> length D' = length D \<and> length S' = length S \<and>
     length C' = length C \<and>
     (if C' = C then xsum (P' @ D' @ S' @ G') = xsum (P @ D @ S @ G) XOR push_bit k 1
      else xsum (P' @ D' @ S' @ G') = xsum (P @ D @ S @ G))"
    (is "\<exists>P' D' S' C' G'. ?Q P' D' S' C' G'")
proof -
  consider (p) "pos < length P"
    | (d) "\<not> pos < length P" "pos - length P < length D"
    | (s) "\<not> pos < length P" "\<not> pos - length P < length D"
          "pos - length P - length D < length S"
    | (c) "\<not> pos < length P" "\<not> pos - length P < length D"
          "\<not> pos - length P - length D < length S"
          "pos - length P - length D - length S < length C"
    | (g) "\<not> pos < length P" "\<not> pos - length P < length D"
          "\<not> pos - length P - length D < length S"
          "\<not> pos - length P - length D - length S < length C"
          "pos - length P - length D - length S - length C < length G"
    using assms(1) by fastforce
  then show ?thesis
  proof cases
    case p
    have "?Q (flip_bit pos k P) D S C G"
      using p by (simp add: flip_bit_append xsum_flip_bit xor.assoc xor.left_commute xor.commute)
    then show ?thesis by blast
  next
    case d
    have "?Q P (flip_bit (pos - length P) k D) S C G"
      using d by (simp add: flip_bit_append xsum_flip_bit xor.assoc xor.left_commute xor.commute)
    then show ?thesis by blast
  next
    case s
    have "?Q P D (flip_bit (pos - length P - length D) k S) C G"
      using s by (simp add: flip_bit_append xsum_flip_bit xor.assoc xor.left_commute xor.commute)
    then show ?thesis by blast
  next
    case c
    have "?Q P D S (flip_bit (pos - length P - length D - length S) k C) G"
      using c assms(2) by (simp add: flip_bit_append flip_bit_neq)
    then show ?thesis by blast
  next
    case g
    have "?Q P D S C (flip_bit (pos - length P - length D - length S - length C) k G)"
      using g by (simp add: flip_bit_append xsum_flip_bit xor.assoc xor.left_commute xor.commute)
    then show ?thesis by blast
  qed
qed


section \<open>Claims about the frame codec\<close>

text \<open>
  Claim C1. For every link frame built by the constructor from a protocol number in
  \<open>[0, 2^48)\<close>, 6-byte destination and source addresses and any payload, encoding
  succeeds, decoding the encoding gives back the same frame (same protocol number,
  addresses, checksum and payload), and checksum verification of the decoded frame
  returns true.
\<close>
theorem frame_roundtrip:
  assumes "0 \<le> p" "p < 2 ^ 48" "length d = 6" "length s = 6"
  shows "\<exists>f bs f'. Frame p d s g = Inr f \<and> toBytes f = Inr bs \<and> toFrame bs = Inr f' \<and>
           f' = f \<and> protocol f = p \<and> dstMacAdr f = d \<and> sourceMacAdr f = s \<and>
           datagram f = g \<and> snd (ConfirmChecksum f') = Inr True"
proof -
  let ?f = "\<lparr>protocol = p, dstMacAdr = d, sourceMacAdr = s, datagram = g,
             checksum = csum p d s g\<rparr>"
  let ?bs = "be_digits 6 p @ d @ s @ csum p d s g @ g"
  have f: "Frame p d s g = Inr ?f"
    using assms by (simp add: Frame_ok)
  have b: "toBytes ?f = Inr ?bs"
    using assms by (simp add: toBytes_def to_bytes_big_6)
  have l: "length (csum p d s g) = 4"
    by (simp add: csum_def)
  have t: "toFrame ?bs = Inr ?f"
    using assms l by (simp add: toFrame_parts from_bytes_be_digits)
  have v: "snd (ConfirmChecksum ?f) = Inr True"
    using assms by (simp add: ConfirmChecksum_ok)
  from f b t v show ?thesis
    by simp
qed

theorem frame_roundtrip_witness:
  "\<exists>f bs f'. Frame 0xbe42 [0x65, 0x50, 0x6f, 0x4e, 0x61, 0x7e]
                   [0xff, 0x74, 0x65, 0x73, 0x74, 0xfe] [0x68, 0x69] = Inr f \<and>
      toBytes f = Inr bs \<and> toFrame bs = Inr f' \<and> f' = f \<and> protocol f = 0xbe42 \<and>
      dstMacAdr f = [0x65, 0x50, 0x6f, 0x4e, 0x61, 0x7e] \<and>
      sourceMacAdr f = [0xff, 0x74, 0x65, 0x73, 0x74, 0xfe] \<and>
      datagram f = [0x68, 0x69] \<and> snd (ConfirmChecksum f') = Inr True"
  using frame_roundtrip [of "0xbe42" "[0x65, 0x50, 0x6f, 0x4e, 0x61, 0x7e]"
      "[0xff, 0x74, 0x65, 0x73, 0x74, 0xfe]" "[0x68, 0x69]"]
  by simp

text \<open>
  Claim C2. For every such frame and every bit position of its encoding (byte \<open>pos\<close>,
  bit \<open>k\<close>), decoding the encoding with exactly that bit flipped gives a frame whose
  checksum verification returns false.
\<close>
theorem single_bit_flip_detected:
  assumes "0 \<le> p" "p < 2 ^ 48" "length d = 6" "length s = 6"
    and "Frame p d s g = Inr f" "toBytes f = Inr bs" "pos < length bs" "k < 8"
  shows "\<exists>f'. toFrame (flip_bit pos k bs) = Inr f' \<and> snd (ConfirmChecksum f') = Inr False"
proof -
  let ?P = "be_digits 6 p"
  let ?C = "csum p d s g"
  have f: "f = \<lparr>protocol = p, dstMacAdr = d, sourceMacAdr = s, datagram = g, checksum = ?C\<rparr>"
    using assms(1,2,5) by (simp add: Frame_ok)
  have bs: "bs = ?P @ d @ s @ ?C @ g"
    using assms(1,2,6) by (simp add: f toBytes_def to_bytes_big_6)
  have C: "?C = [0, 0, 0, xsum (?P @ d @ s @ g)]"
    by (simp add: csum_def)
  from flipped_parts [of pos ?P d s ?C g k] assms(7,8) bs
  obtain P' D' S' C' G' where
    fl: "flip_bit pos k bs = P' @ D' @ S' @ C' @ G'" and
    len: "length P' = 6" "length D' = 6" "length S' = 6" "length C' = 4" and
    alt: "if C' = ?C then xsum (P' @ D' @ S' @ G') = xsum (?P @ d @ s @ g) XOR push_bit k 1
          else xsum (P' @ D' @ S' @ G') = xsum (?P @ d @ s @ g)"
    using assms(3,4) by (auto simp: csum_def)
  have m: "push_bit k (1 :: byte) \<noteq> 0"
    by (rule push_bit_byte_nonzero [OF assms(8)])
  have ne: "[0, 0, 0, xsum (P' @ D' @ S' @ G')] \<noteq> C'"
  proof (cases "C' = ?C")
    case True
    with alt have "xsum (P' @ D' @ S' @ G') = xsum (?P @ d @ s @ g) XOR push_bit k 1"
      by simp
    then have "xsum (P' @ D' @ S' @ G') \<noteq> xsum (?P @ d @ s @ g)"
      using xor_mask_neq [OF m] by simp
    with True C show ?thesis
      by simp
  next
    case False
    with alt have "xsum (P' @ D' @ S' @ G') = xsum (?P @ d @ s @ g)"
      by simp
    with False C show ?thesis
      by metis
  qed
  from verify_parts [OF len, of G'] ne fl show ?thesis
    by auto
qed


theorem single_bit_flip_detected_witness:
  "\<exists>f'. toFrame (flip_bit 21 0
            [0, 0, 0, 0, 0, 1, 1, 2, 3, 4, 5, 6, 6, 5, 4, 3, 2, 1, 0, 0, 0, 8, 9]) = Inr f' \<and>
        snd (ConfirmChecksum f') = Inr False"
proof -
  let ?d = "[1, 2, 3, 4, 5, 6] :: bytes"
  let ?s = "[6, 5, 4, 3, 2, 1] :: bytes"
  let ?f = "\<lparr>protocol = 1, dstMacAdr = ?d, sourceMacAdr = ?s, datagram = [9],
             checksum = [0, 0, 0, 8]\<rparr>"
  let ?bs = "[0, 0, 0, 0, 0, 1, 1, 2, 3, 4, 5, 6, 6, 5, 4, 3, 2, 1, 0, 0, 0, 8, 9] :: bytes"
  have h1: "Frame 1 ?d ?s [9] = Inr ?f"
    by code_simp
  have h2: "toBytes ?f = Inr ?bs"
    by code_simp
  have h3: "(21 :: nat) < length ?bs" "(0 :: nat) < 8" "(0 :: int) \<le> 1" "(1 :: int) < 2 ^ 48"
    "length ?d = 6" "length ?s = 6"
    by simp_all
  show ?thesis
    using single_bit_flip_detected [OF h3(3) h3(4) h3(5) h3(6) h1 h2 h3(1) h3(2)]
    by simp
qed

text \<open>
  Claim C8 says that decoding a buffer shorter than the 22-byte header fails with BadFrame.
  The decoder has no length check and no such failure: the empty buffer decodes to a frame
  with empty fields.
\<close>

theorem toFrame_short_counterexample:
  "toFrame [] = Inr \<lparr>protocol = 0, dstMacAdr = [], sourceMacAdr = [], datagram = [],
                     checksum = []\<rparr>"
  by (simp add: toFrame_total slice_def slice_from_def)

text \<open>
  Claim C8, amended. For every buffer shorter than 22 bytes, decoding returns a frame whose
  fields are the (truncated) slices of the buffer, with an empty payload, and checksum
  verification of that frame returns false.
\<close>

theorem toFrame_short_buffer:
  assumes "length bs < 22"
  shows "\<exists>f. toFrame bs = Inr f \<and> protocol f = from_bytes_big (slice 0 6 bs) \<and>
           dstMacAdr f = slice 6 12 bs \<and> sourceMacAdr f = slice 12 18 bs \<and>
           checksum f = slice 18 22 bs \<and> datagram f = [] \<and>
           snd (ConfirmChecksum f) = Inr False"
proof -
  let ?f = "\<lparr>protocol = from_bytes_big (slice 0 6 bs), dstMacAdr = slice 6 12 bs,
          sourceMacAdr = slice 12 18 bs, datagram = slice_from 22 bs,
          checksum = slice 18 22 bs\<rparr>"
  have r: "0 \<le> protocol ?f" "protocol ?f < 2 ^ 48"
    using from_bytes_slice_range [of bs] by simp_all
  have l: "length (slice 18 22 bs) < 4"
    using assms by (simp add: slice_def)
  have "length (csum (protocol ?f) (dstMacAdr ?f) (sourceMacAdr ?f) (datagram ?f)) = 4"
    by (simp add: csum_def)
  with l have "csum (protocol ?f) (dstMacAdr ?f) (sourceMacAdr ?f) (datagram ?f) \<noteq> checksum ?f"
    by auto
  then have "snd (ConfirmChecksum ?f) = Inr False"
    by (simp add: ConfirmChecksum_ok [OF r])
  moreover have "datagram ?f = []"
    using assms by (simp add: slice_from_def)
  ultimately show ?thesis
    by (simp add: toFrame_total)
qed

theorem toFrame_short_buffer_witness:
  "\<exists>f. toFrame [0, 1, 2] = Inr f \<and> protocol f = from_bytes_big (slice 0 6 [0, 1, 2]) \<and>
           dstMacAdr f = slice 6 12 [0, 1, 2] \<and> sourceMacAdr f = slice 12 18 [0, 1, 2] \<and>
           checksum f = slice 18 22 [0, 1, 2] \<and> datagram f = [] \<and>
           snd (ConfirmChecksum f) = Inr False"
  using toFrame_short_buffer [of "[0, 1, 2]"] by simp

text \<open>
  Claim C10. Checksum verification is not pure: it leaves the frame's checksum field empty,
  so re-encoding the verified frame gives the byte string without the 4-byte checksum
  field, and a second verification of the same object returns false.
\<close>
theorem ConfirmChecksum_not_pure:
  assumes "0 \<le> protocol f" "protocol f < 2 ^ 48"
  shows "fst (ConfirmChecksum f) = f\<lparr>checksum := []\<rparr> \<and>
         toBytes (fst (ConfirmChecksum f)) =
           Inr (be_digits 6 (protocol f) @ dstMacAdr f @ sourceMacAdr f @ datagram f) \<and>
         snd (ConfirmChecksum (fst (ConfirmChecksum f))) = Inr False"
  using assms
  by (simp add: ConfirmChecksum_ok toBytes_def to_bytes_big_6 csum_def)

theorem ConfirmChecksum_not_pure_witness:
  "snd (ConfirmChecksum \<lparr>protocol = 1, dstMacAdr = [1, 2, 3, 4, 5, 6],
        sourceMacAdr = [6, 5, 4, 3, 2, 1], datagram = [9], checksum = [0, 0, 0, 8]\<rparr>) = Inr True \<and>
   fst (ConfirmChecksum \<lparr>protocol = 1, dstMacAdr = [1, 2, 3, 4, 5, 6],
        sourceMacAdr = [6, 5, 4, 3, 2, 1], datagram = [9], checksum = [0, 0, 0, 8]\<rparr>) =
     \<lparr>protocol = 1, dstMacAdr = [1, 2, 3, 4, 5, 6],
        sourceMacAdr = [6, 5, 4, 3, 2, 1], datagram = [9], checksum = []\<rparr> \<and>
   toBytes (fst (ConfirmChecksum \<lparr>protocol = 1, dstMacAdr = [1, 2, 3, 4, 5, 6],
        sourceMacAdr = [6, 5, 4, 3, 2, 1], datagram = [9], checksum = [0, 0, 0, 8]\<rparr>)) =
     Inr [0, 0, 0, 0, 0, 1, 1, 2, 3, 4, 5, 6, 6, 5, 4, 3, 2, 1, 9] \<and>
   snd (ConfirmChecksum (fst (ConfirmChecksum \<lparr>protocol = 1, dstMacAdr = [1, 2, 3, 4, 5, 6],
        sourceMacAdr = [6, 5, 4, 3, 2, 1], datagram = [9], checksum = [0, 0, 0, 8]\<rparr>))) =
     Inr False"
proof -
  let ?f = "\<lparr>protocol = 1, dstMacAdr = [1, 2, 3, 4, 5, 6],
        sourceMacAdr = [6, 5, 4, 3, 2, 1], datagram = [9], checksum = [0, 0, 0, 8]\<rparr>"
  have v: "snd (ConfirmChecksum ?f) = Inr True"
    by code_simp
  have d: "be_digits 6 1 = [0, 0, 0, 0, 0, 1]"
    by code_simp
  have c: "fst (ConfirmChecksum ?f) = ?f\<lparr>checksum := []\<rparr> \<and>
         toBytes (fst (ConfirmChecksum ?f)) =
           Inr (be_digits 6 (protocol ?f) @ dstMacAdr ?f @ sourceMacAdr ?f @ datagram ?f) \<and>
         snd (ConfirmChecksum (fst (ConfirmChecksum ?f))) = Inr False"
    by (rule ConfirmChecksum_not_pure) simp_all
  show ?thesis
  proof (intro conjI)
    show "snd (ConfirmChecksum ?f) = Inr True"
      by (rule v)
    show "fst (ConfirmChecksum ?f) = \<lparr>protocol = 1, dstMacAdr = [1, 2, 3, 4, 5, 6],
        sourceMacAdr = [6, 5, 4, 3, 2, 1], datagram = [9], checksum = []\<rparr>"
      using conjunct1 [OF c] by simp
    show "toBytes (fst (ConfirmChecksum ?f)) =
        Inr [0, 0, 0, 0, 0, 1, 1, 2, 3, 4, 5, 6, 6, 5, 4, 3, 2, 1, 9]"
      using conjunct1 [OF conjunct2 [OF c]] d by simp
    show "snd (ConfirmChecksum (fst (ConfirmChecksum ?f))) = Inr False"
      by (rule conjunct2 [OF conjunct2 [OF c]])
  qed
qed


section \<open>Claims about the broadcast link\<close>

lemma some_returned_simps [simp]:
  "some_returned [] = False"
  "some_returned (e # evs) = (is_Returned e \<or> some_returned evs)"
  "some_returned (evs @ evs') = (some_returned evs \<or> some_returned evs')"
  by (simp_all add: some_returned_def)

lemma is_Returned_deeper [simp]: "is_Returned (deeper e) = is_Returned e"
  by (cases e) simp_all

lemma some_returned_deeper [simp]: "some_returned (map deeper evs) = some_returned evs"
  by (induction evs) simp_all

lemma starts_see_append [simp]:
  "starts_see c (evs @ evs') = (starts_see c evs \<and> starts_see (c \<and> \<not> some_returned evs) evs')"
proof (induction evs arbitrary: c)
  case Nil
  then show ?case by simp
next
  case (Cons e evs)
  then show ?case by (cases e) auto
qed

lemma starts_see_deeper [simp]: "starts_see c (map deeper evs) = starts_see c evs"
proof (induction evs arbitrary: c)
  case Nil
  then show ?case by simp
next
  case (Cons e evs)
  then show ?case by (cases e) simp_all
qed

lemma own_deliveries_simps [simp]:
  "own_deliveries [] = []"
  "own_deliveries (e # evs) = own_delivery e @ own_deliveries evs"
  "own_deliveries (evs @ evs') = own_deliveries evs @ own_deliveries evs'"
  by (simp_all add: own_deliveries_def)

lemma own_delivery_deeper [simp]: "own_delivery (deeper e) = []"
  by (cases e) simp_all

lemma own_deliveries_deeper [simp]: "own_deliveries (map deeper evs) = []"
  by (induction evs) simp_all

text \<open>What the parts of \<open>tx\<close> do to the flag, given what the nested \<open>tx\<close> does.\<close>

lemma run_sends_flag:
  assumes f: "\<And>l s fr l' evs r. f l s fr = Some (l', evs, r) \<Longrightarrow>
      nodes l' = nodes l \<and> (corrupt l' = (corrupt l \<and> \<not> some_returned evs)) \<and>
      starts_see (corrupt l) evs"
  shows "run_sends f cs l = Some (l', evs, r) \<Longrightarrow>
      nodes l' = nodes l \<and> (corrupt l' = (corrupt l \<and> \<not> some_returned evs)) \<and>
      starts_see (corrupt l) evs"
proof (induction cs arbitrary: l l' evs r)
  case Nil
  then show ?case by simp
next
  case (Cons c cs)
  from Cons.prems obtain l1 evs1 r1 where
    c: "f l (fst c) (snd c) = Some (l1, evs1, r1)"
    by (auto split: option.splits)
  note f1 = f [OF c]
  show ?case
  proof (cases r1)
    case (Some e)
    with Cons.prems c f1 show ?thesis by simp
  next
    case None
    with Cons.prems c obtain evs2 where
      r: "run_sends f cs l1 = Some (l', evs2, r)" and e: "evs = evs1 @ evs2"
      by (auto split: option.splits)
    from Cons.IH [OF r] f1 e show ?thesis by auto
  qed
qed

lemma rx_link_flag:
  assumes f: "\<And>l s fr l' evs r. f l s fr = Some (l', evs, r) \<Longrightarrow>
      nodes l' = nodes l \<and> (corrupt l' = (corrupt l \<and> \<not> some_returned evs)) \<and>
      starts_see (corrupt l) evs"
    and r: "rx_link f rcv node frm l = Some (l', evs, r)"
  shows "nodes l' = nodes l \<and> (corrupt l' = (corrupt l \<and> \<not> some_returned evs)) \<and>
      starts_see (corrupt l) evs"
proof -
  from r obtain evs1 r1 where
    s: "run_sends f (fst (rcv (clock l) node frm)) (l\<lparr>clock := clock l + 1\<rparr>) = Some (l', evs1, r1)"
    and e: "evs = RxLink 0 node frm # map deeper evs1"
    by (auto simp: rx_link_def split: prod.splits option.splits)
  from run_sends_flag [of f, OF f s] e show ?thesis
    by simp
qed

lemma deliver_flag:
  assumes f: "\<And>l s fr l' evs r. f l s fr = Some (l', evs, r) \<Longrightarrow>
      nodes l' = nodes l \<and> (corrupt l' = (corrupt l \<and> \<not> some_returned evs)) \<and>
      starts_see (corrupt l) evs"
  shows "deliver f rcv sender frm ns l = Some (l', evs, r) \<Longrightarrow>
      nodes l' = nodes l \<and> (corrupt l' = (corrupt l \<and> \<not> some_returned evs)) \<and>
      starts_see (corrupt l) evs"
proof (induction ns arbitrary: l l' evs r)
  case Nil
  then show ?case by simp
next
  case (Cons node ns)
  show ?case
  proof (cases "node = sender")
    case True
    with Cons.prems have "deliver f rcv sender frm ns l = Some (l', evs, r)"
      by simp
    then show ?thesis by (rule Cons.IH)
  next
    case False
    with Cons.prems obtain l1 evs1 r1 where
      c: "rx_link f rcv node frm l = Some (l1, evs1, r1)"
      by (auto split: option.splits)
    note f1 = rx_link_flag [of f, OF f c]
    show ?thesis
    proof (cases r1)
      case (Some e)
      with Cons.prems c f1 False show ?thesis by simp
    next
      case None
      with Cons.prems c False obtain evs2 where
        r: "deliver f rcv sender frm ns l1 = Some (l', evs2, r)" and e: "evs = evs1 @ evs2"
        by (auto split: option.splits)
      from Cons.IH [OF r] f1 e show ?thesis by auto
    qed
  qed
qed

text \<open>The cases of a \<open>tx\<close> that gives a result.\<close>

lemma link_tx_body_cases:
  assumes "link_tx_body f rcv rng l sender frame = Some (l', evs, r)"
  shows "(l' = l \<and> evs = [Started 0 sender (corrupt l)] \<and> r \<noteq> None) \<or>
         (\<exists>buf frm l1 evs1.
            frame = ByteString buf \<and> sender \<in> set (nodes l) \<and>
            (if corrupt l then corrupt_frame rng (clock l) buf else Inr buf) = Inr frm \<and>
            deliver f rcv sender frm (nodes l)
              (if corrupt l then l\<lparr>clock := clock l + 2\<rparr> else l) = Some (l1, evs1, r) \<and>
            (if r = None
             then l' = l1\<lparr>corrupt := False\<rparr> \<and>
                  evs = Started 0 sender (corrupt l) # evs1 @ [Returned 0]
             else l' = l1 \<and> evs = Started 0 sender (corrupt l) # evs1))"
proof (cases "sender \<in> set (nodes l)")
  case False
  with assms show ?thesis
    by (auto simp: link_tx_body_def Let_def)
next
  case True
  show ?thesis
  proof (cases frame)
    case NotByteString
    with assms True show ?thesis
      by (auto simp: link_tx_body_def Let_def)
  next
    case (ByteString buf)
    show ?thesis
    proof (cases "if corrupt l then corrupt_frame rng (clock l) buf else Inr buf")
      case (Inl e)
      with assms True ByteString show ?thesis
        by (auto simp: link_tx_body_def Let_def)
    next
      case (Inr frm)
      with assms True ByteString obtain l1 evs1 r1 where
        d: "deliver f rcv sender frm (nodes l)
              (if corrupt l then l\<lparr>clock := clock l + 2\<rparr> else l) = Some (l1, evs1, r1)"
        by (auto simp: link_tx_body_def Let_def split: option.splits)
      show ?thesis
      proof (cases r1)
        case None
        with assms True ByteString Inr d show ?thesis
          by (simp add: link_tx_body_def Let_def)
      next
        case (Some e)
        with assms True ByteString Inr d show ?thesis
          by (auto simp: link_tx_body_def Let_def)
      qed
    qed
  qed
qed

lemma link_tx_body_flag:
  assumes f: "\<And>l s fr l' evs r. f l s fr = Some (l', evs, r) \<Longrightarrow>
      nodes l' = nodes l \<and> (corrupt l' = (corrupt l \<and> \<not> some_returned evs)) \<and>
      starts_see (corrupt l) evs"
    and r: "link_tx_body f rcv rng l sender frame = Some (l', evs, r)"
  shows "nodes l' = nodes l \<and> (corrupt l' = (corrupt l \<and> \<not> some_returned evs)) \<and>
      starts_see (corrupt l) evs \<and>
         (r = None \<longrightarrow> \<not> corrupt l')"
  using link_tx_body_cases [OF r]
proof (elim disjE exE conjE)
  assume "l' = l" "evs = [Started 0 sender (corrupt l)]" "r \<noteq> None"
  then show ?thesis by auto
next
  fix buf frm l1 evs1
  assume d: "deliver f rcv sender frm (nodes l)
      (if corrupt l then l\<lparr>clock := clock l + 2\<rparr> else l) = Some (l1, evs1, r)"
    and e: "if r = None
          then l' = l1\<lparr>corrupt := False\<rparr> \<and>
               evs = Started 0 sender (corrupt l) # evs1 @ [Returned 0]
          else l' = l1 \<and> evs = Started 0 sender (corrupt l) # evs1"
  from deliver_flag [of f, OF f d] e show ?thesis
    by (cases r) (auto split: if_splits)
qed

lemma tx_flag:
  "tx n rcv rng l sender frame = Some (l', evs, r) \<Longrightarrow>
     nodes l' = nodes l \<and> (corrupt l' = (corrupt l \<and> \<not> some_returned evs)) \<and>
      starts_see (corrupt l) evs \<and>
     (r = None \<longrightarrow> \<not> corrupt l')"
proof (induction n arbitrary: l sender frame l' evs r)
  case 0
  then show ?case by simp
next
  case (Suc n)
  have f: "\<And>l s fr l' evs r. tx n rcv rng l s fr = Some (l', evs, r) \<Longrightarrow>
      nodes l' = nodes l \<and> (corrupt l' = (corrupt l \<and> \<not> some_returned evs)) \<and>
      starts_see (corrupt l) evs"
    using Suc.IH by blast
  from Suc.prems have "link_tx_body (tx n rcv rng) rcv rng l sender frame = Some (l', evs, r)"
    by simp
  from link_tx_body_flag [of "tx n rcv rng", OF f this] show ?case .
qed

lemma tx_seq_flag:
  "tx_seq n rcv rng cs l = Some (l', evs) \<Longrightarrow>
     nodes l' = nodes l \<and> (corrupt l' = (corrupt l \<and> \<not> some_returned evs)) \<and>
     starts_see (corrupt l) evs"
proof (induction cs arbitrary: l l' evs)
  case Nil
  then show ?case by simp
next
  case (Cons c cs)
  from Cons.prems obtain l1 evs1 r1 where
    c: "tx n rcv rng l (fst c) (snd c) = Some (l1, evs1, r1)"
    by (auto split: option.splits)
  with Cons.prems obtain evs2 where
    r: "tx_seq n rcv rng cs l1 = Some (l', evs2)" and e: "evs = evs1 @ evs2"
    by (auto split: option.splits)
  from Cons.IH [OF r] tx_flag [OF c] e show ?case
    by auto
qed

text \<open>The receivers a \<open>tx\<close> calls itself, and the buffer they get.\<close>

lemma rx_link_own:
  "rx_link f rcv node frm l = Some (l', evs, r) \<Longrightarrow> own_deliveries evs = [(node, frm)]"
  by (auto simp: rx_link_def split: prod.splits option.splits)

lemma deliver_same_buffer:
  "deliver f rcv sender frm ns l = Some (l', evs, r) \<Longrightarrow>
     \<forall>d \<in> set (own_deliveries evs). snd d = frm"
proof (induction ns arbitrary: l l' evs r)
  case Nil
  then show ?case by simp
next
  case (Cons node ns)
  show ?case
  proof (cases "node = sender")
    case True
    with Cons.prems have "deliver f rcv sender frm ns l = Some (l', evs, r)"
      by simp
    then show ?thesis by (rule Cons.IH)
  next
    case False
    with Cons.prems obtain l1 evs1 r1 where
      c: "rx_link f rcv node frm l = Some (l1, evs1, r1)"
      by (auto split: option.splits)
    note o = rx_link_own [OF c]
    show ?thesis
    proof (cases r1)
      case (Some e)
      with Cons.prems c o False show ?thesis by simp
    next
      case None
      with Cons.prems c False obtain evs2 where
        r: "deliver f rcv sender frm ns l1 = Some (l', evs2, r)" and e: "evs = evs1 @ evs2"
        by (auto split: option.splits)
      from Cons.IH [OF r] o e show ?thesis by auto
    qed
  qed
qed

lemma deliver_others:
  "deliver f rcv sender frm ns l = Some (l', evs, None) \<Longrightarrow>
     own_deliveries evs = map (\<lambda>n. (n, frm)) (filter (\<lambda>n. n \<noteq> sender) ns)"
proof (induction ns arbitrary: l l' evs)
  case Nil
  then show ?case by simp
next
  case (Cons node ns)
  show ?case
  proof (cases "node = sender")
    case True
    with Cons.prems have "deliver f rcv sender frm ns l = Some (l', evs, None)"
      by simp
    from Cons.IH [OF this] True show ?thesis by simp
  next
    case False
    with Cons.prems obtain l1 evs1 r1 where
      c: "rx_link f rcv node frm l = Some (l1, evs1, r1)"
      by (auto split: option.splits)
    note o = rx_link_own [OF c]
    show ?thesis
    proof (cases r1)
      case (Some e)
      with Cons.prems c False show ?thesis by simp
    next
      case None
      with Cons.prems c False obtain evs2 where
        r: "deliver f rcv sender frm ns l1 = Some (l', evs2, None)" and e: "evs = evs1 @ evs2"
        by (auto split: option.splits)
      from Cons.IH [OF r] o e False show ?thesis by simp
    qed
  qed
qed

lemma deliver_only_sender:
  "set ns \<subseteq> {sender} \<Longrightarrow> deliver f rcv sender frm ns l = Some (l, [], None)"
  by (induction ns) auto

lemma distinct_attach: "distinct (nodes l) \<Longrightarrow> distinct (nodes (attach l n))"
  by (simp add: attach_def)

lemma distinct_detach: "distinct (nodes l) \<Longrightarrow> detach l n = Inr l' \<Longrightarrow> distinct (nodes l')"
  by (auto simp: detach_def distinct_removeAll split: if_splits)

lemma randint_range:
  assumes "a \<le> b"
  shows "\<exists>x. randint r a b = Inr x \<and> a \<le> x \<and> x \<le> b"
proof -
  have p: "0 < b - a + 1"
    using assms by simp
  have m1: "0 \<le> int r mod (b - a + 1)"
    by (rule pos_mod_sign [OF p])
  have m2: "int r mod (b - a + 1) < b - a + 1"
    by (rule pos_mod_bound [OF p])
  have "randint r a b = Inr (a + int r mod (b - a + 1))"
    using assms by (simp add: randint_def)
  moreover have "a \<le> a + int r mod (b - a + 1)" "a + int r mod (b - a + 1) \<le> b"
    using m1 m2 by linarith+
  ultimately show ?thesis
    by blast
qed

lemma corrupt_frame_nonempty:
  assumes "frm \<noteq> []"
  shows "\<exists>pos k. pos < length frm \<and> k < 8 \<and> corrupt_frame rng t frm = Inr (flip_bit pos k frm)"
proof -
  have "0 \<le> int (length frm) - 1"
    using assms by (cases frm) simp_all
  from randint_range [OF this, of "rng t"] obtain x where
    x: "randint (rng t) 0 (int (length frm) - 1) = Inr x" "0 \<le> x" "x \<le> int (length frm) - 1"
    by blast
  from randint_range [of 0 7 "rng (t + 1)"] obtain y where
    y: "randint (rng (t + 1)) 0 7 = Inr y" "0 \<le> y" "y \<le> 7"
    by auto
  have "nat x < length frm" "nat y < 8"
    using x y by simp_all
  then show ?thesis
    using x(1) y(1) by (auto simp: corrupt_frame_def)
qed

lemma corrupt_frame_empty: "corrupt_frame rng t [] = Inl ValueError"
  by (simp add: corrupt_frame_def randint_def)

lemma flip_bit_one_bit_apart:
  assumes "pos < length frm" "k < 8"
  shows "one_bit_apart frm (flip_bit pos k frm)"
proof -
  have a: "flip_bit pos k frm ! pos = (frm ! pos) XOR push_bit k 1"
    using assms by (simp add: flip_bit_def nth_append)
  have b: "\<forall>i < length frm. i \<noteq> pos \<longrightarrow> flip_bit pos k frm ! i = frm ! i"
    using assms by (auto simp: flip_bit_def nth_append nth_Cons')
  from a b assms show ?thesis
    unfolding one_bit_apart_def by auto
qed

lemma link_tx_body_delivered_buffer:
  assumes "link_tx_body f rcv rng l sender (ByteString buf) = Some (l', evs, r)"
  shows "corrupt l \<and> buf \<noteq> [] \<longrightarrow>
           (\<exists>frm. one_bit_apart buf frm \<and> (\<forall>d \<in> set (own_deliveries evs). snd d = frm))"
    and "\<not> corrupt l \<longrightarrow> (\<forall>d \<in> set (own_deliveries evs). snd d = buf)"
proof -
  have c: "(own_deliveries evs = []) \<or>
     (\<exists>frm. (if corrupt l then corrupt_frame rng (clock l) buf else Inr buf) = Inr frm \<and>
        (\<forall>d \<in> set (own_deliveries evs). snd d = frm))"
    using link_tx_body_cases [OF assms]
  proof (elim disjE exE conjE)
    assume "evs = [Started 0 sender (corrupt l)]"
    then show ?thesis by simp
  next
    fix buf' frm l1 evs1
    assume b: "ByteString buf = ByteString buf'"
      and k: "(if corrupt l then corrupt_frame rng (clock l) buf' else Inr buf') = Inr frm"
      and d: "deliver f rcv sender frm (nodes l)
          (if corrupt l then l\<lparr>clock := clock l + 2\<rparr> else l) = Some (l1, evs1, r)"
      and e: "if r = None
          then l' = l1\<lparr>corrupt := False\<rparr> \<and>
               evs = Started 0 sender (corrupt l) # evs1 @ [Returned 0]
          else l' = l1 \<and> evs = Started 0 sender (corrupt l) # evs1"
    from e have "own_deliveries evs = own_deliveries evs1"
      by (auto split: if_splits)
    with deliver_same_buffer [OF d] b k show ?thesis
      by auto
  qed
  show "corrupt l \<and> buf \<noteq> [] \<longrightarrow>
           (\<exists>frm. one_bit_apart buf frm \<and> (\<forall>d \<in> set (own_deliveries evs). snd d = frm))"
  proof
    assume a: "corrupt l \<and> buf \<noteq> []"
    then obtain pos k where
      pk: "pos < length buf" "k < 8"
        "corrupt_frame rng (clock l) buf = Inr (flip_bit pos k buf)"
      using corrupt_frame_nonempty [of buf rng "clock l"] by blast
    with c a have "\<forall>d \<in> set (own_deliveries evs). snd d = flip_bit pos k buf"
      by auto
    with flip_bit_one_bit_apart [OF pk(1,2)] show
      "\<exists>frm. one_bit_apart buf frm \<and> (\<forall>d \<in> set (own_deliveries evs). snd d = frm)"
      by blast
  qed
  show "\<not> corrupt l \<longrightarrow> (\<forall>d \<in> set (own_deliveries evs). snd d = buf)"
    using c by auto
qed

lemma tx_delivered_buffer:
  assumes "tx n rcv rng l sender (ByteString buf) = Some (l', evs, r)"
  shows "corrupt l \<and> buf \<noteq> [] \<longrightarrow>
           (\<exists>frm. one_bit_apart buf frm \<and> (\<forall>d \<in> set (own_deliveries evs). snd d = frm))"
    and "\<not> corrupt l \<longrightarrow> (\<forall>d \<in> set (own_deliveries evs). snd d = buf)"
proof -
  from assms obtain m where m: "n = Suc m"
    by (cases n) simp_all
  with assms have
    b: "link_tx_body (tx m rcv rng) rcv rng l sender (ByteString buf) = Some (l', evs, r)"
    by simp
  show "corrupt l \<and> buf \<noteq> [] \<longrightarrow>
           (\<exists>frm. one_bit_apart buf frm \<and> (\<forall>d \<in> set (own_deliveries evs). snd d = frm))"
    by (rule link_tx_body_delivered_buffer(1) [OF b])
  show "\<not> corrupt l \<longrightarrow> (\<forall>d \<in> set (own_deliveries evs). snd d = buf)"
    by (rule link_tx_body_delivered_buffer(2) [OF b])
qed

lemma tx_no_receivers:
  assumes "set (nodes l) = {sender}" "corrupt l \<longrightarrow> buf \<noteq> []"
  shows "tx (Suc n) rcv rng l sender (ByteString buf) =
           Some (l\<lparr>corrupt := False, clock := clock l + (if corrupt l then 2 else 0)\<rparr>,
                 [Started 0 sender (corrupt l), Returned 0], None)"
proof (cases "corrupt l")
  case True
  with assms(2) obtain pos k where
    "corrupt_frame rng (clock l) buf = Inr (flip_bit pos k buf)"
    using corrupt_frame_nonempty [of buf rng "clock l"] by blast
  with True assms(1) show ?thesis
    by (simp add: link_tx_body_def Let_def deliver_only_sender)
next
  case False
  with assms(1) show ?thesis
    by (simp add: link_tx_body_def Let_def deliver_only_sender)
qed

text \<open>
  The bound on the nesting depth does not change a result: what a \<open>tx\<close> gives within a
  bound, it gives within every larger one.
\<close>

lemma run_sends_mono:
  assumes fg: "\<And>l s fr x. f l s fr = Some x \<Longrightarrow> g l s fr = Some x"
  shows "run_sends f cs l = Some x \<Longrightarrow> run_sends g cs l = Some x"
proof (induction cs arbitrary: l x)
  case Nil
  then show ?case by simp
next
  case (Cons c cs)
  from Cons.prems obtain l1 evs1 r1 where
    c: "f l (fst c) (snd c) = Some (l1, evs1, r1)"
    by (auto split: option.splits)
  note g = fg [OF c]
  show ?case
  proof (cases r1)
    case (Some e)
    with Cons.prems c g show ?thesis by auto
  next
    case None
    with Cons.prems c obtain y where
      r: "run_sends f cs l1 = Some y"
      by (auto split: option.splits)
    from Cons.IH [OF r] Cons.prems c g None r show ?thesis
      by auto
  qed
qed

lemma rx_link_mono:
  assumes fg: "\<And>l s fr x. f l s fr = Some x \<Longrightarrow> g l s fr = Some x"
    and r: "rx_link f rcv node frm l = Some x"
  shows "rx_link g rcv node frm l = Some x"
proof -
  from r obtain y where
    s: "run_sends f (fst (rcv (clock l) node frm)) (l\<lparr>clock := clock l + 1\<rparr>) = Some y"
    by (auto simp: rx_link_def split: prod.splits option.splits)
  from run_sends_mono [of f g, OF fg s] r s show ?thesis
    by (simp add: rx_link_def split: prod.splits)
qed

lemma deliver_mono:
  assumes fg: "\<And>l s fr x. f l s fr = Some x \<Longrightarrow> g l s fr = Some x"
  shows "deliver f rcv sender frm ns l = Some x \<Longrightarrow> deliver g rcv sender frm ns l = Some x"
proof (induction ns arbitrary: l x)
  case Nil
  then show ?case by simp
next
  case (Cons node ns)
  show ?case
  proof (cases "node = sender")
    case True
    with Cons.prems have "deliver f rcv sender frm ns l = Some x"
      by simp
    from Cons.IH [OF this] True show ?thesis by simp
  next
    case False
    with Cons.prems obtain l1 evs1 r1 where
      c: "rx_link f rcv node frm l = Some (l1, evs1, r1)"
      by (auto split: option.splits)
    note g = rx_link_mono [of f g, OF fg c]
    show ?thesis
    proof (cases r1)
      case (Some e)
      with Cons.prems c g False show ?thesis by auto
    next
      case None
      with Cons.prems c False obtain y where
        r: "deliver f rcv sender frm ns l1 = Some y"
        by (auto split: option.splits)
      from Cons.IH [OF r] Cons.prems c g None r False show ?thesis
        by auto
    qed
  qed
qed

lemma link_tx_body_mono:
  assumes fg: "\<And>l s fr x. f l s fr = Some x \<Longrightarrow> g l s fr = Some x"
    and r: "link_tx_body f rcv rng l sender frame = Some x"
  shows "link_tx_body g rcv rng l sender frame = Some x"
proof (cases "\<exists>buf frm. frame = ByteString buf \<and> sender \<in> set (nodes l) \<and>
    (if corrupt l then corrupt_frame rng (clock l) buf else Inr buf) = Inr frm")
  case False
  with r show ?thesis
    by (auto simp: link_tx_body_def Let_def split: txarg.splits sum.splits)
next
  case True
  then obtain buf frm where
    b: "frame = ByteString buf" "sender \<in> set (nodes l)"
      "(if corrupt l then corrupt_frame rng (clock l) buf else Inr buf) = Inr frm"
    by blast
  with r obtain y where
    d: "deliver f rcv sender frm (nodes l)
          (if corrupt l then l\<lparr>clock := clock l + 2\<rparr> else l) = Some y"
    by (auto simp: link_tx_body_def Let_def split: option.splits)
  from deliver_mono [of f g, OF fg d] r d b show ?thesis
    by (simp add: link_tx_body_def Let_def)
qed

lemma tx_Suc_mono: "tx n rcv rng l sender frame = Some x \<Longrightarrow> tx (Suc n) rcv rng l sender frame = Some x"
proof (induction n arbitrary: l sender frame x)
  case 0
  then show ?case by simp
next
  case (Suc n)
  have fg: "\<And>l s fr x. tx n rcv rng l s fr = Some x \<Longrightarrow> tx (Suc n) rcv rng l s fr = Some x"
    using Suc.IH by blast
  from Suc.prems have "link_tx_body (tx n rcv rng) rcv rng l sender frame = Some x"
    by simp
  from link_tx_body_mono [of "tx n rcv rng" "tx (Suc n) rcv rng", OF fg this]
  show ?case by simp
qed

lemma tx_mono:
  "tx n rcv rng l sender frame = Some x \<Longrightarrow> n \<le> m \<Longrightarrow> tx m rcv rng l sender frame = Some x"
proof (induction m)
  case 0
  then show ?case by simp
next
  case (Suc m)
  show ?case
  proof (cases "n = Suc m")
    case True
    with Suc.prems show ?thesis by simp
  next
    case False
    with Suc.prems have "n \<le> m" by simp
    from Suc.IH [OF Suc.prems(1) this] show ?thesis
      by (rule tx_Suc_mono)
  qed
qed

text \<open>Receivers that do not transmit: the \<open>tx\<close> gives a result at nesting depth 0.\<close>

lemma deliver_no_sends:
  assumes "\<And>t n b. fst (rcv t n b) = []"
  shows "\<exists>x. deliver f rcv sender frm ns l = Some x"
proof (induction ns arbitrary: l)
  case Nil
  then show ?case by simp
next
  case (Cons node ns)
  have r: "rx_link f rcv node frm l =
      Some (l\<lparr>clock := clock l + 1\<rparr>, [RxLink 0 node frm], snd (rcv (clock l) node frm))"
    using assms [of "clock l" node frm]
    by (auto simp: rx_link_def split: prod.splits)
  from Cons [of l] Cons [of "l\<lparr>clock := clock l + 1\<rparr>"] r show ?case
    by (cases "snd (rcv (clock l) node frm)") auto
qed

lemma tx_no_sends:
  assumes "\<And>t n b. fst (rcv t n b) = []"
  shows "\<exists>x. tx (Suc n) rcv rng l sender frame = Some x"
proof -
  have d: "\<And>frm l'. \<exists>x. deliver (tx n rcv rng) rcv sender frm (nodes l) l' = Some x"
    by (rule deliver_no_sends [OF assms])
  show ?thesis
  proof (cases "\<exists>buf frm. frame = ByteString buf \<and> sender \<in> set (nodes l) \<and>
      (if corrupt l then corrupt_frame rng (clock l) buf else Inr buf) = Inr frm")
    case False
    then show ?thesis
      by (auto simp: link_tx_body_def Let_def split: txarg.splits sum.splits)
  next
    case True
    then obtain buf frm where
      b: "frame = ByteString buf" "sender \<in> set (nodes l)"
        "(if corrupt l then corrupt_frame rng (clock l) buf else Inr buf) = Inr frm"
      by blast
    from d [of frm "if corrupt l then l\<lparr>clock := clock l + 2\<rparr> else l"] obtain l1 evs1 r1 where
      "deliver (tx n rcv rng) rcv sender frm (nodes l)
          (if corrupt l then l\<lparr>clock := clock l + 2\<rparr> else l) = Some (l1, evs1, r1)"
      by (metis prod_cases3)
    with b show ?thesis
      by (cases r1) (simp_all add: link_tx_body_def Let_def)
  qed
qed

lemma deliver_returns:
  assumes "\<And>t n b. rcv t n b = ([], None)"
  shows "deliver f rcv sender frm ns l =
     Some (l\<lparr>clock := clock l + length (filter (\<lambda>n. n \<noteq> sender) ns)\<rparr>,
           map (\<lambda>n. RxLink 0 n frm) (filter (\<lambda>n. n \<noteq> sender) ns), None)"
proof (induction ns arbitrary: l)
  case Nil
  then show ?case by simp
next
  case (Cons node ns)
  have r: "rx_link f rcv node frm l = Some (l\<lparr>clock := clock l + 1\<rparr>, [RxLink 0 node frm], None)"
    by (simp add: rx_link_def assms)
  from Cons [of l] Cons [of "l\<lparr>clock := clock l + 1\<rparr>"] r show ?case
    by simp
qed

text \<open>
  Delivery to the attached nodes: a \<open>tx\<close> that returns normally has called \<open>rx_link\<close> of
  exactly the attached nodes other than the sender, once each; and a \<open>tx\<close> of a byte
  buffer by an attached sender returns normally when the receivers do, unless the flag is
  set and the buffer is empty.
\<close>

lemma tx_delivers_to_others:
  assumes "distinct (nodes l)"
    and "tx n rcv rng l sender frame = Some (l', evs, None)"
  shows "map fst (own_deliveries evs) = filter (\<lambda>n. n \<noteq> sender) (nodes l) \<and>
         distinct (map fst (own_deliveries evs)) \<and>
         set (map fst (own_deliveries evs)) = set (nodes l) - {sender}"
proof -
  from assms(2) obtain m where m: "n = Suc m"
    by (cases n) simp_all
  with assms(2) have
    b: "link_tx_body (tx m rcv rng) rcv rng l sender frame = Some (l', evs, None)"
    by simp
  from link_tx_body_cases [OF b] obtain frm l1 evs1 where
    d: "deliver (tx m rcv rng) rcv sender frm (nodes l)
          (if corrupt l then l\<lparr>clock := clock l + 2\<rparr> else l) = Some (l1, evs1, None)"
    and e: "evs = Started 0 sender (corrupt l) # evs1 @ [Returned 0]"
    by auto
  from deliver_others [OF d] e
  have m: "map fst (own_deliveries evs) = filter (\<lambda>n. n \<noteq> sender) (nodes l)"
    by (simp add: comp_def)
  with assms(1) show ?thesis
    by auto
qed

lemma tx_returns:
  assumes "sender \<in> set (nodes l)" "corrupt l \<longrightarrow> buf \<noteq> []"
    and "\<And>t n b. rcv t n b = ([], None)"
  shows "\<exists>frm l'. tx (Suc n) rcv rng l sender (ByteString buf) =
           Some (l', Started 0 sender (corrupt l) #
                     map (\<lambda>n. RxLink 0 n frm) (filter (\<lambda>n. n \<noteq> sender) (nodes l)) @
                     [Returned 0], None) \<and>
           nodes l' = nodes l \<and> \<not> corrupt l'"
proof (cases "corrupt l")
  case True
  with assms(2) obtain pos k where
    "corrupt_frame rng (clock l) buf = Inr (flip_bit pos k buf)"
    using corrupt_frame_nonempty [of buf rng "clock l"] by blast
  with True assms(1) show ?thesis
    by (simp add: link_tx_body_def Let_def deliver_returns [of rcv, OF assms(3)])
next
  case False
  with assms(1) show ?thesis
    by (simp add: link_tx_body_def Let_def deliver_returns [of rcv, OF assms(3)])
qed

lemma tx_empty_under_corruption:
  assumes "sender \<in> set (nodes l)" "corrupt l"
  shows "tx (Suc n) rcv rng l sender (ByteString []) =
           Some (l, [Started 0 sender True], Some ValueError)"
  using assms by (simp add: link_tx_body_def Let_def corrupt_frame_empty)

lemma tx_nonbytes:
  assumes "sender \<in> set (nodes l)"
  shows "tx (Suc n) rcv rng l sender NotByteString =
           Some (l, [Started 0 sender (corrupt l)], Some TypeError)"
  using assms by (simp add: link_tx_body_def Let_def)

text \<open>
  Claim C5 says that the corruption flag affects only the next \<open>tx\<close> call and is cleared
  after any \<open>tx\<close>, whatever its outcome, also one whose buffer is not a byte sequence. The
  flag is reset by the last statement of \<open>tx\<close> only. Three runs on a link with the flag set:
  a \<open>tx\<close> of something that is not a byte sequence raises TypeError and the flag is still
  set; a \<open>tx\<close> in which the receiver 3 raises KeyError leaves the flag set, and the \<open>tx\<close>
  after it delivers a corrupted buffer again; and when the receiver 2 answers from inside
  \<open>rx_link\<close> with a transmission of \<open>[7]\<close>, that second \<open>tx\<close> starts with the flag set
  and delivers \<open>[135]\<close>.
\<close>

theorem tx_flag_outlives_tx_counterexample:
  "tx 1 silent (\<lambda>t. 0) \<lparr>nodes = [1 :: nat, 2], corrupt = True, clock = 0\<rparr> 1 NotByteString =
     Some (\<lparr>nodes = [1, 2], corrupt = True, clock = 0\<rparr>, [Started 0 1 True], Some TypeError) \<and>
   tx 1 (\<lambda>t n b. if n = 3 then ([], Some KeyError) else ([], None)) (\<lambda>t. 3)
      \<lparr>nodes = [1 :: nat, 2, 3], corrupt = True, clock = 0\<rparr> 1 (ByteString [5, 6]) =
     Some (\<lparr>nodes = [1, 2, 3], corrupt = True, clock = 4\<rparr>,
           [Started 0 1 True, RxLink 0 2 [5, 14], RxLink 0 3 [5, 14]], Some KeyError) \<and>
   tx 1 silent (\<lambda>t. 3)
      \<lparr>nodes = [1 :: nat, 2, 3], corrupt = True, clock = 4\<rparr> 1 (ByteString [5, 6]) =
     Some (\<lparr>nodes = [1, 2, 3], corrupt = False, clock = 8\<rparr>,
           [Started 0 1 True, RxLink 0 2 [5, 14], RxLink 0 3 [5, 14], Returned 0], None) \<and>
   tx 2 (\<lambda>t n b. if n = 2 \<and> length b = 2 then ([(2, ByteString [7])], None) else ([], None))
      (\<lambda>t. t + 3)
      \<lparr>nodes = [1 :: nat, 2, 3], corrupt = True, clock = 0\<rparr> 1 (ByteString [5, 6]) =
     Some (\<lparr>nodes = [1, 2, 3], corrupt = False, clock = 8\<rparr>,
           [Started 0 1 True, RxLink 0 2 [5, 22],
            Started 1 2 True, RxLink 1 1 [135], RxLink 1 3 [135], Returned 1,
            RxLink 0 3 [5, 22], Returned 0], None)"
  by code_simp

text \<open>
  Claim C5, amended. The flag is cleared by the normal return of a \<open>tx\<close> and by nothing
  else in \<open>tx\<close>. For an attached sender, a \<open>tx\<close> whose buffer is not a byte sequence raises
  TypeError, delivers nothing and leaves the link, flag included, as it was. During any
  \<open>tx\<close> that gives a result, every \<open>tx\<close> that starts (this one and the ones that receivers
  make from inside \<open>rx_link\<close>) finds the flag as it was at the beginning until the first of
  them returns normally, and clear from then on; afterwards the flag is set exactly when it
  was set before and none of them has returned normally, so it is clear after a \<open>tx\<close> that
  returns normally. When the flag is set and the buffer is not empty, all receivers that
  the \<open>tx\<close> calls get the same buffer, which differs from the transmitted one in exactly
  one bit of exactly one byte. A \<open>tx\<close> with no attached receiver returns normally and
  clears the flag (unless the flag is set and the buffer is empty). A \<open>tx\<close> that starts
  with the flag clear delivers the transmitted buffer unchanged. And over any sequence of
  \<open>tx\<close> calls whose exceptions the caller catches, every \<open>tx\<close> started before the first
  normal return finds the flag as it was at the beginning, every later one finds it clear,
  and at the end the flag is set exactly when it was set at the beginning and no \<open>tx\<close>
  has returned normally.
\<close>

theorem corruption_flag_until_normal_return:
  assumes "sender \<in> set (nodes l)"
  shows
    "tx (Suc m) rcv rng l sender NotByteString =
       Some (l, [Started 0 sender (corrupt l)], Some TypeError) \<and>
     (tx n rcv rng l sender frame = Some (l', evs, res) \<longrightarrow>
        starts_see (corrupt l) evs \<and>
        (corrupt l' = (corrupt l \<and> \<not> some_returned evs)) \<and>
        (res = None \<longrightarrow> \<not> corrupt l')) \<and>
     (corrupt l \<and> buf \<noteq> [] \<and>
      tx n rcv rng l sender (ByteString buf) = Some (l', evs, res) \<longrightarrow>
        (\<exists>frm. one_bit_apart buf frm \<and> (\<forall>d \<in> set (own_deliveries evs). snd d = frm))) \<and>
     (set (nodes l1) = {sender1} \<and> (corrupt l1 \<longrightarrow> buf1 \<noteq> []) \<longrightarrow>
        tx (Suc n1) rcv1 rng1 l1 sender1 (ByteString buf1) =
          Some (l1\<lparr>corrupt := False, clock := clock l1 + (if corrupt l1 then 2 else 0)\<rparr>,
                [Started 0 sender1 (corrupt l1), Returned 0], None)) \<and>
     (\<not> corrupt l2 \<and>
      tx n2 rcv2 rng2 l2 sender2 (ByteString buf2) = Some (l2', evs2, res2) \<longrightarrow>
        (\<forall>d \<in> set (own_deliveries evs2). snd d = buf2)) \<and>
     (tx_seq n3 rcv3 rng3 calls l3 = Some (l3', evs3) \<longrightarrow>
        starts_see (corrupt l3) evs3 \<and>
        (corrupt l3' = (corrupt l3 \<and> \<not> some_returned evs3)))"
proof (intro conjI impI)
  show "tx (Suc m) rcv rng l sender NotByteString =
       Some (l, [Started 0 sender (corrupt l)], Some TypeError)"
    using assms by (rule tx_nonbytes)
next
  assume a: "tx n rcv rng l sender frame = Some (l', evs, res)"
  from tx_flag [OF a] show "starts_see (corrupt l) evs"
    by simp
  from tx_flag [OF a] show "corrupt l' = (corrupt l \<and> \<not> some_returned evs)"
    by simp
  assume "res = None"
  with tx_flag [OF a] show "\<not> corrupt l'"
    by blast
next
  assume a: "corrupt l \<and> buf \<noteq> [] \<and>
      tx n rcv rng l sender (ByteString buf) = Some (l', evs, res)"
  then have t: "tx n rcv rng l sender (ByteString buf) = Some (l', evs, res)"
    by simp
  from tx_delivered_buffer(1) [OF t] a
  show "\<exists>frm. one_bit_apart buf frm \<and> (\<forall>d \<in> set (own_deliveries evs). snd d = frm)"
    by blast
next
  assume "set (nodes l1) = {sender1} \<and> (corrupt l1 \<longrightarrow> buf1 \<noteq> [])"
  then show "tx (Suc n1) rcv1 rng1 l1 sender1 (ByteString buf1) =
          Some (l1\<lparr>corrupt := False, clock := clock l1 + (if corrupt l1 then 2 else 0)\<rparr>,
                [Started 0 sender1 (corrupt l1), Returned 0], None)"
    using tx_no_receivers [of l1 sender1 buf1 n1 rcv1 rng1] by blast
next
  assume a: "\<not> corrupt l2 \<and>
      tx n2 rcv2 rng2 l2 sender2 (ByteString buf2) = Some (l2', evs2, res2)"
  then have t: "tx n2 rcv2 rng2 l2 sender2 (ByteString buf2) = Some (l2', evs2, res2)"
    by simp
  from tx_delivered_buffer(2) [OF t] a
  show "\<forall>d \<in> set (own_deliveries evs2). snd d = buf2"
    by blast
next
  assume a: "tx_seq n3 rcv3 rng3 calls l3 = Some (l3', evs3)"
  from tx_seq_flag [OF a] show "starts_see (corrupt l3) evs3"
    by simp
  from tx_seq_flag [OF a] show "corrupt l3' = (corrupt l3 \<and> \<not> some_returned evs3)"
    by simp
qed

theorem corruption_flag_until_normal_return_witness:
  "tx 2 (\<lambda>t n b. if n = 2 \<and> length b = 2 then ([(2, ByteString [7])], None) else ([], None))
      (\<lambda>t. t + 3)
      \<lparr>nodes = [1 :: nat, 2, 3], corrupt = True, clock = 0\<rparr> 1 (ByteString [5, 6]) =
     Some (\<lparr>nodes = [1, 2, 3], corrupt = False, clock = 8\<rparr>,
           [Started 0 1 True, RxLink 0 2 [5, 22],
            Started 1 2 True, RxLink 1 1 [135], RxLink 1 3 [135], Returned 1,
            RxLink 0 3 [5, 22], Returned 0], None) \<and>
   one_bit_apart [5, 6] [5, 22] \<and>
   starts_see True
     [Started 0 (1 :: nat) True, RxLink 0 2 [5, 22],
      Started 1 2 True, RxLink 1 1 [135], RxLink 1 3 [135], Returned 1,
      RxLink 0 3 [5, 22], Returned 0] \<and>
   tx 2 (\<lambda>t n b. if n = 2 \<and> length b = 2 then ([(2, ByteString [7])], None) else ([], None))
      (\<lambda>t. t + 3)
      \<lparr>nodes = [1 :: nat, 2, 3], corrupt = True, clock = 0\<rparr> 1 NotByteString =
     Some (\<lparr>nodes = [1, 2, 3], corrupt = True, clock = 0\<rparr>, [Started 0 1 True],
           Some TypeError) \<and>
   tx 1 silent (\<lambda>t. 3) \<lparr>nodes = [1 :: nat], corrupt = True, clock = 0\<rparr> 1 (ByteString [5, 6]) =
     Some (\<lparr>nodes = [1], corrupt = False, clock = 2\<rparr>, [Started 0 1 True, Returned 0], None) \<and>
   tx 2 (\<lambda>t n b. if n = 2 \<and> length b = 2 then ([(2, ByteString [7])], None) else ([], None))
      (\<lambda>t. t + 3)
      \<lparr>nodes = [1 :: nat, 2, 3], corrupt = False, clock = 8\<rparr> 3 (ByteString [5, 6]) =
     Some (\<lparr>nodes = [1, 2, 3], corrupt = False, clock = 12\<rparr>,
           [Started 0 3 False, RxLink 0 1 [5, 6], RxLink 0 2 [5, 6],
            Started 1 2 False, RxLink 1 1 [7], RxLink 1 3 [7], Returned 1, Returned 0], None) \<and>
   tx_seq 1 (\<lambda>t n b. if n = 3 \<and> t = 3 then ([], Some KeyError) else ([], None)) (\<lambda>t. 3)
      [(1, NotByteString), (1, ByteString [5, 6]), (1, ByteString [5, 6]),
       (1, ByteString [5, 6])]
      \<lparr>nodes = [1 :: nat, 2, 3], corrupt = True, clock = 0\<rparr> =
     Some (\<lparr>nodes = [1, 2, 3], corrupt = False, clock = 10\<rparr>,
           [Started 0 1 True,
            Started 0 1 True, RxLink 0 2 [5, 14], RxLink 0 3 [5, 14],
            Started 0 1 True, RxLink 0 2 [5, 14], RxLink 0 3 [5, 14], Returned 0,
            Started 0 1 False, RxLink 0 2 [5, 6], RxLink 0 3 [5, 6], Returned 0]) \<and>
   starts_see True
     [Started 0 (1 :: nat) True,
      Started 0 1 True, RxLink 0 2 [5, 14], RxLink 0 3 [5, 14],
      Started 0 1 True, RxLink 0 2 [5, 14], RxLink 0 3 [5, 14], Returned 0,
      Started 0 1 False, RxLink 0 2 [5, 6], RxLink 0 3 [5, 6], Returned 0]"
proof -
  let ?rcv = "\<lambda>(t :: nat) (n :: nat) (b :: bytes).
      if n = 2 \<and> length b = 2 then ([(2 :: nat, ByteString [7])], None :: error option)
      else ([], None)"
  let ?rng = "\<lambda>t :: nat. t + 3"
  let ?L = "\<lparr>nodes = [1 :: nat, 2, 3], corrupt = True, clock = 0\<rparr>"
  let ?L' = "\<lparr>nodes = [1 :: nat, 2, 3], corrupt = False, clock = 8\<rparr>"
  let ?L'' = "\<lparr>nodes = [1 :: nat, 2, 3], corrupt = False, clock = 12\<rparr>"
  let ?L1 = "\<lparr>nodes = [1 :: nat], corrupt = True, clock = 0\<rparr>"
  let ?evs = "[Started 0 (1 :: nat) True, RxLink 0 2 [5, 22],
      Started 1 2 True, RxLink 1 1 [135], RxLink 1 3 [135], Returned 1,
      RxLink 0 3 [5, 22], Returned 0]"
  let ?evs2 = "[Started 0 (3 :: nat) False, RxLink 0 1 [5, 6], RxLink 0 2 [5, 6],
      Started 1 2 False, RxLink 1 1 [7], RxLink 1 3 [7], Returned 1, Returned 0]"
  let ?rcv3 = "\<lambda>(t :: nat) (n :: nat) (b :: bytes).
      if n = 3 \<and> t = 3 then ([] :: (nat \<times> txarg) list, Some KeyError) else ([], None)"
  let ?calls = "[(1 :: nat, NotByteString), (1, ByteString [5, 6]), (1, ByteString [5, 6]),
      (1, ByteString [5, 6])]"
  let ?L3 = "\<lparr>nodes = [1 :: nat, 2, 3], corrupt = False, clock = 10\<rparr>"
  let ?evs3 = "[Started 0 (1 :: nat) True,
      Started 0 1 True, RxLink 0 2 [5, 14], RxLink 0 3 [5, 14],
      Started 0 1 True, RxLink 0 2 [5, 14], RxLink 0 3 [5, 14], Returned 0,
      Started 0 1 False, RxLink 0 2 [5, 6], RxLink 0 3 [5, 6], Returned 0]"
  have s: "(1 :: nat) \<in> set (nodes ?L)"
    by simp
  have t1: "tx 2 ?rcv ?rng ?L 1 (ByteString [5, 6]) = Some (?L', ?evs, None)"
    by code_simp
  have t2: "tx 2 ?rcv ?rng ?L' 3 (ByteString [5, 6]) = Some (?L'', ?evs2, None)"
    by code_simp
  have t3: "tx_seq 1 ?rcv3 (\<lambda>t. 3) ?calls ?L = Some (?L3, ?evs3)"
    by code_simp
  have o: "own_deliveries ?evs = [(2, [5, 22]), (3, [5, 22])]"
    by (simp add: own_deliveries_def)
  note th = corruption_flag_until_normal_return [OF s,
      where m = 1 and n = 2 and rcv = ?rcv and rng = ?rng and frame = "ByteString [5, 6]"
        and l' = ?L' and evs = ?evs and res = None and buf = "[5, 6]"
        and ?l1.0 = ?L1 and ?sender1.0 = 1 and ?buf1.0 = "[5, 6]" and ?n1.0 = 0
        and ?rcv1.0 = silent and ?rng1.0 = "\<lambda>t. 3"
        and ?l2.0 = ?L' and ?n2.0 = 2 and ?rcv2.0 = ?rcv and ?rng2.0 = ?rng
        and ?sender2.0 = 3 and ?buf2.0 = "[5, 6]" and ?l2'.0 = ?L'' and ?evs2.0 = ?evs2
        and ?res2.0 = None
        and ?n3.0 = 1 and ?rcv3.0 = ?rcv3 and ?rng3.0 = "\<lambda>t. 3" and calls = ?calls
        and ?l3.0 = ?L and ?l3'.0 = ?L3 and ?evs3.0 = ?evs3, unfolded Suc_1]
  from th have c1: "tx 2 ?rcv ?rng ?L 1 NotByteString = Some (?L, [Started 0 1 True], Some TypeError)"
    by (simp del: tx.simps tx_seq.simps)
  from th t1 have c3: "starts_see True ?evs"
    by (simp del: tx.simps tx_seq.simps)
  from th t1 have "\<exists>frm. one_bit_apart [5, 6] frm \<and> (\<forall>d \<in> set (own_deliveries ?evs). snd d = frm)"
    by (simp del: tx.simps tx_seq.simps)
  then have c4: "one_bit_apart [5, 6] [5, 22]"
    unfolding o by auto
  from th have c5: "tx 1 silent (\<lambda>t. 3) ?L1 1 (ByteString [5, 6]) =
      Some (\<lparr>nodes = [1], corrupt = False, clock = 2\<rparr>, [Started 0 1 True, Returned 0], None)"
    by (simp del: tx.simps tx_seq.simps)
  from th t3 have c6: "starts_see True ?evs3"
    by (simp del: tx.simps tx_seq.simps)
  from t1 t2 t3 c1 c3 c4 c5 c6 show ?thesis
    by (intro conjI)
qed

text \<open>
  Claim C6: for every \<open>tx(sender, buf)\<close> with the sender attached, exactly the other
  attached nodes receive \<open>rx_link\<close>, once each. With the corruption flag set and an empty
  buffer, \<open>random.randint(0, -1)\<close> raises ValueError before the delivery loop: node 2 is
  attached and receives nothing.
\<close>

theorem tx_empty_buffer_under_corruption:
  "tx 1 silent (\<lambda>t. 0) \<lparr>nodes = [1 :: nat, 2], corrupt = True, clock = 0\<rparr> 1 (ByteString []) =
     Some (\<lparr>nodes = [1, 2], corrupt = True, clock = 0\<rparr>, [Started 0 1 True], Some ValueError)"
  by code_simp

section \<open>Claims about the learning switch\<close>

lemma forward_ok:
  assumes "0 \<le> p" "p < int (length (ports sw))" "\<And>l b. link_tx l b = None"
  shows "forward link_tx sw p frm =
     ((case ports sw ! nat p of None \<Rightarrow> [] | Some link \<Rightarrow> [(p, link, frm)]), None)"
  using assms by (simp add: forward_def split: option.splits)

declare broadcast_loop.simps [simp del]

lemma flood_list_step:
  "index < nports sw \<Longrightarrow>
     flood_list sw frm port index =
       (if int index \<noteq> port then
          (case ports sw ! index of None \<Rightarrow> [] | Some link \<Rightarrow> [(int index, link, frm)])
        else []) @ flood_list sw frm port (index + 1)"
  by (simp add: flood_list_def upt_conv_Cons)

lemma flood_list_done: "\<not> index < nports sw \<Longrightarrow> flood_list sw frm port index = []"
  by (simp add: flood_list_def)

lemma broadcast_loop_flood:
  assumes "length (ports sw) = nports sw" "\<And>l b. link_tx l b = None"
  shows "broadcast_loop link_tx sw frm port index = (flood_list sw frm port index, None)"
proof (induction "nports sw - index" arbitrary: index)
  case 0
  then have "\<not> index < nports sw"
    by simp
  then show ?case
    by (simp add: broadcast_loop.simps [of link_tx sw frm port index] flood_list_done)
next
  case (Suc n)
  then have lt: "index < nports sw"
    by simp
  have ih: "broadcast_loop link_tx sw frm port (Suc index) =
      (flood_list sw frm port (Suc index), None)"
    using Suc by simp
  have f: "forward link_tx sw (int index) frm =
      ((case ports sw ! index of None \<Rightarrow> [] | Some link \<Rightarrow> [(int index, link, frm)]), None)"
    using forward_ok [of "int index" sw link_tx frm] lt assms by simp
  show ?case
    using lt by (simp add: broadcast_loop.simps [of link_tx sw frm port index] ih f
        flood_list_step)
qed

lemma switch_rx_bad_checksum:
  assumes "toFrame frm = Inr f" "snd (ConfirmChecksum f) = Inr False"
  shows "switch_rx link_tx sw port frm = (sw, [], None)"
proof -
  obtain cf where "ConfirmChecksum f = (cf, Inr False)"
    using assms(2) by (cases "ConfirmChecksum f") simp
  with assms(1) show ?thesis
    by (simp add: switch_rx_def)
qed

text \<open>
  Claim C3. A checksum-valid frame arrives at the switch on ingress port \<open>q\<close>, the links
  accept every transmission, and a port learned for the destination is a port of the
  switch. If the destination address is in the switching table with port \<open>p\<close>, the table
  is not modified and the original bytes are sent out port \<open>p\<close> only, and only when
  \<open>p \<noteq> q\<close>; for \<open>p = q\<close> nothing is sent. Otherwise (the broadcast address is not
  special: it is unknown like any other absent key) the entry source address \<open>\<mapsto> q\<close> is
  inserted or overwritten and the original bytes are sent out every plugged port except
  \<open>q\<close>.
\<close>

theorem switch_rx_forwarding:
  assumes "toFrame frm = Inr f" "snd (ConfirmChecksum f) = Inr True"
    and "length (ports sw) = nports sw"
    and "\<And>l b. link_tx l b = None"
    and "\<And>p. switchingTable sw (dstMacAdr f) = Some p \<Longrightarrow> 0 \<le> p \<and> p < int (nports sw)"
  shows "(case switchingTable sw (dstMacAdr f) of
            Some p \<Rightarrow>
              switch_rx link_tx sw q frm =
                (sw,
                 (if p \<noteq> q then
                    (case ports sw ! nat p of None \<Rightarrow> [] | Some link \<Rightarrow> [(p, link, frm)])
                  else []),
                 None)
          | None \<Rightarrow>
              switch_rx link_tx sw q frm =
                (sw\<lparr>switchingTable := (switchingTable sw)(sourceMacAdr f \<mapsto> q)\<rparr>,
                 flood_list sw frm q 0,
                 None))"
proof -
  obtain cf where cc: "ConfirmChecksum f = (cf, Inr True)"
    using assms(2) by (cases "ConfirmChecksum f") simp
  have cf: "dstMacAdr cf = dstMacAdr f" "sourceMacAdr cf = sourceMacAdr f"
    using cc by (auto simp: ConfirmChecksum_def CreateChecksum_def Let_def split: sum.splits)
  show ?thesis
  proof (cases "switchingTable sw (dstMacAdr f)")
    case None
    let ?sw' = "sw\<lparr>switchingTable := (switchingTable sw)(sourceMacAdr f \<mapsto> q)\<rparr>"
    have "broadcast link_tx ?sw' frm q = (flood_list ?sw' frm q 0, None)"
      unfolding broadcast_def using assms(3,4) by (intro broadcast_loop_flood) simp_all
    moreover have "flood_list ?sw' frm q 0 = flood_list sw frm q 0"
      by (simp add: flood_list_def cong: if_cong option.case_cong)
    ultimately show ?thesis
      using None assms(1) cc cf by (simp add: switch_rx_def Let_def)
  next
    case (Some p)
    then have r: "0 \<le> p" "p < int (length (ports sw))"
      using assms(3,5) by auto
    show ?thesis
      using Some assms(1) cc cf forward_ok [OF r assms(4)]
      by (simp add: switch_rx_def)
  qed
qed


lemma flood_list_set:
  "set (flood_list sw frm q 0) =
     {(int i, l, frm) | i l. i < nports sw \<and> int i \<noteq> q \<and> ports sw ! i = Some l}"
  by (auto simp: flood_list_def split: if_splits option.splits)

lemma flood_list_ports_distinct: "distinct (map fst (flood_list sw frm q index))"
proof (induction "nports sw - index" arbitrary: index)
  case 0
  then show ?case
    by (simp add: flood_list_done)
next
  case (Suc n)
  then have lt: "index < nports sw"
    by simp
  have ih: "distinct (map fst (flood_list sw frm q (Suc index)))"
    using Suc by simp
  have r: "int index \<notin> set (map fst (flood_list sw frm q (Suc index)))"
    by (auto simp: flood_list_def split: if_splits option.splits)
  show ?case
  proof (cases "int index \<noteq> q \<and> ports sw ! index \<noteq> None")
    case True
    then obtain l where "ports sw ! index = Some l"
      by auto
    with True have "flood_list sw frm q index = (int index, l, frm) # flood_list sw frm q (Suc index)"
      using flood_list_step [OF lt, of frm q] by simp
    with ih r show ?thesis
      by simp
  next
    case False
    then have "flood_list sw frm q index = flood_list sw frm q (Suc index)"
      using flood_list_step [OF lt, of frm q] by auto
    with ih show ?thesis
      by simp
  qed
qed

lemma switch_rx_table_ports:
  assumes "switch_rx link_tx sw q frm = (sw', txs, r)"
    and "\<forall>h p. switchingTable sw h = Some p \<longrightarrow> 0 \<le> p \<and> p < int (nports sw)"
    and "0 \<le> q" "q < int (nports sw)"
  shows "\<forall>h p. switchingTable sw' h = Some p \<longrightarrow> 0 \<le> p \<and> p < int (nports sw')"
  using assms
  by (auto simp: switch_rx_def Let_def split: sum.splits prod.splits option.splits if_splits)

theorem switch_rx_forwarding_witness:
  "switch_rx (\<lambda>l b. None)
      \<lparr>nports = 3, ports = [Some (10 :: nat), Some 11, Some 12],
        switchingTable = [[1, 2, 3, 4, 5, 6] \<mapsto> 1]\<rparr> 0
      [0, 0, 0, 0, 0, 1, 1, 2, 3, 4, 5, 6, 6, 5, 4, 3, 2, 1, 0, 0, 0, 8, 9] =
     (\<lparr>nports = 3, ports = [Some 10, Some 11, Some 12],
        switchingTable = [[1, 2, 3, 4, 5, 6] \<mapsto> 1]\<rparr>,
      [(1, 11, [0, 0, 0, 0, 0, 1, 1, 2, 3, 4, 5, 6, 6, 5, 4, 3, 2, 1, 0, 0, 0, 8, 9])],
      None) \<and>
   switch_rx (\<lambda>l b. None)
      \<lparr>nports = 3, ports = [Some (10 :: nat), Some 11, Some 12],
        switchingTable = [[1, 2, 3, 4, 5, 6] \<mapsto> 1]\<rparr> 1
      [0, 0, 0, 0, 0, 1, 1, 2, 3, 4, 5, 6, 6, 5, 4, 3, 2, 1, 0, 0, 0, 8, 9] =
     (\<lparr>nports = 3, ports = [Some 10, Some 11, Some 12],
        switchingTable = [[1, 2, 3, 4, 5, 6] \<mapsto> 1]\<rparr>, [], None) \<and>
   switch_rx (\<lambda>l b. None)
      \<lparr>nports = 3, ports = [Some (10 :: nat), Some 11, Some 12],
        switchingTable = Map.empty\<rparr> 0
      [0, 0, 0, 0, 0, 1, 1, 2, 3, 4, 5, 6, 6, 5, 4, 3, 2, 1, 0, 0, 0, 8, 9] =
     (\<lparr>nports = 3, ports = [Some 10, Some 11, Some 12],
        switchingTable = [[6, 5, 4, 3, 2, 1] \<mapsto> 0]\<rparr>,
      [(1, 11, [0, 0, 0, 0, 0, 1, 1, 2, 3, 4, 5, 6, 6, 5, 4, 3, 2, 1, 0, 0, 0, 8, 9]),
       (2, 12, [0, 0, 0, 0, 0, 1, 1, 2, 3, 4, 5, 6, 6, 5, 4, 3, 2, 1, 0, 0, 0, 8, 9])],
      None)"
proof -
  let ?bs = "[0, 0, 0, 0, 0, 1, 1, 2, 3, 4, 5, 6, 6, 5, 4, 3, 2, 1, 0, 0, 0, 8, 9] :: bytes"
  let ?f = "\<lparr>protocol = 1, dstMacAdr = [1, 2, 3, 4, 5, 6], sourceMacAdr = [6, 5, 4, 3, 2, 1],
             datagram = [9], checksum = [0, 0, 0, 8]\<rparr>"
  let ?tx = "\<lambda>(l :: nat) (b :: bytes). None :: error option"
  let ?sw1 = "\<lparr>nports = 3, ports = [Some (10 :: nat), Some 11, Some 12],
        switchingTable = [[1, 2, 3, 4, 5, 6] \<mapsto> 1]\<rparr>"
  let ?sw0 = "\<lparr>nports = 3, ports = [Some (10 :: nat), Some 11, Some 12],
        switchingTable = Map.empty\<rparr>"
  have d: "toFrame ?bs = Inr ?f"
    by code_simp
  have v: "snd (ConfirmChecksum ?f) = Inr True"
    by code_simp
  have fl: "flood_list ?sw0 ?bs 0 0 = [(1, 11, ?bs), (2, 12, ?bs)]"
    by (simp add: flood_list_def upt_rec)
  have a: "switch_rx ?tx ?sw1 0 ?bs = (?sw1, [(1, 11, ?bs)], None)"
    using switch_rx_forwarding [of ?bs ?f ?sw1 ?tx 0, OF d v] by simp
  have b: "switch_rx ?tx ?sw1 1 ?bs = (?sw1, [], None)"
    using switch_rx_forwarding [of ?bs ?f ?sw1 ?tx 1, OF d v] by simp
  have c: "switch_rx ?tx ?sw0 0 ?bs =
      (?sw0\<lparr>switchingTable := (switchingTable ?sw0)(sourceMacAdr ?f \<mapsto> 0)\<rparr>,
       flood_list ?sw0 ?bs 0 0, None)"
    using switch_rx_forwarding [of ?bs ?f ?sw0 ?tx 0, OF d v] by simp
  from a b c fl show ?thesis
    by simp
qed

section \<open>Claims about the adapter\<close>

lemma adapter_rx_0 [simp]: "adapter_rx 0 frm s = None"
  by (simp add: adapter_rx_def [abs_def])

lemma adapter_rx_Suc:
  "adapter_rx (Suc n) frm s = rx_body (arpFrameRecievedProcedure n) frm s"
  by (simp add: adapter_rx_def [abs_def] arpFrameRecievedProcedure_def [abs_def])

lemma arpFrameRecievedProcedure_Suc:
  "arpFrameRecievedProcedure (Suc n) frm s =
     arpFrameRecievedProcedure_body (output_ip n) frm s"
  by (simp add: arpFrameRecievedProcedure_def [abs_def] output_ip_def [abs_def])

lemma output_ip_Suc:
  "output_ip (Suc n) protonum addr dgram s =
     output_ip_body (output_ip n) (arpIpDiscoverProcess n) (adapter_output n)
       protonum addr dgram s"
  by (simp add: output_ip_def [abs_def] arpIpDiscoverProcess_def [abs_def] adapter_output_def [abs_def])

lemma arpIpDiscoverProcess_Suc:
  "arpIpDiscoverProcess (Suc n) addr s = arpIpDiscoverProcess_body (discover_loop n) addr s"
  by (simp add: arpIpDiscoverProcess_def [abs_def] discover_loop_def [abs_def])

lemma discover_loop_Suc:
  "discover_loop (Suc n) arpFrameBytes count s =
     discover_loop_body (discover_loop n) (adapter_output n) arpFrameBytes count s"
  by (simp add: discover_loop_def [abs_def] adapter_output_def [abs_def])

lemma adapter_output_Suc:
  "adapter_output (Suc n) protonum dst dgram s =
     output_body (adapter_tx n) protonum dst dgram s"
  by (simp add: adapter_output_def [abs_def] adapter_tx_def [abs_def])

lemma adapter_tx_Suc:
  "adapter_tx (Suc n) frm s = tx_body (adapter_rx n) frm s"
  by (simp add: adapter_tx_def [abs_def] adapter_rx_def [abs_def])

lemma grows_refl [simp]: "grows s s"
  by (simp add: grows_def)

lemma grows_trace [simp]: "grows s (s\<lparr>trace := t\<rparr>)"
  by (simp add: grows_def)

lemma grows_trans: "grows s s1 \<Longrightarrow> grows s1 s2 \<Longrightarrow> grows s s2"
  by (auto simp: grows_def)

lemma then_do_Some:
  assumes "then_do r k = Some (s', out)"
  shows "(\<exists>e. r = Some (s', Raise e) \<and> out = Raise e) \<or>
         (\<exists>s1. r = Some (s1, Ok) \<and> k s1 = Some (s', out))"
  using assms by (auto simp: then_do_def split: option.splits outcome.splits prod.splits)

lemma then_do_Ok:
  assumes "then_do r k = Some (s', Ok)"
  shows "\<exists>s1. r = Some (s1, Ok) \<and> k s1 = Some (s', Ok)"
  using then_do_Some [OF assms] by auto

lemma then_do_grows:
  assumes "then_do r k = Some (s', out)"
    and "\<And>s1 o1. r = Some (s1, o1) \<Longrightarrow> grows s s1"
    and "\<And>s1 s2 o2. k s1 = Some (s2, o2) \<Longrightarrow> grows s1 s2"
  shows "grows s s'"
  using then_do_Some [OF assms(1)] assms(2,3) by (blast intro: grows_trans)

lemma deliver_all_grows:
  assumes "\<And>f s s' r. rcv f s = Some (s', r) \<Longrightarrow> grows s s'"
  shows "deliver_all rcv fs s = Some (s', r) \<Longrightarrow> grows s s'"
proof (induction fs arbitrary: s s' r)
  case Nil
  then show ?case by simp
next
  case (Cons f fs)
  from Cons.prems have "then_do (rcv f s) (deliver_all rcv fs) = Some (s', r)"
    by simp
  then show ?case
    by (rule then_do_grows) (auto intro: assms Cons.IH)
qed

lemma rx_body_grows:
  assumes "\<And>f s s' r. arp f s = Some (s', r) \<Longrightarrow> grows s s'"
    and "rx_body arp frm s = Some (s', r)"
  shows "grows s s'"
  using assms(2)
  by (auto simp: rx_body_def split: sum.splits prod.splits if_splits dest: assms(1))

lemma arpFrameRecievedProcedure_body_grows:
  assumes "\<And>p a d s s' r. oip p a d s = Some (s', r) \<Longrightarrow> grows s s'"
    and "arpFrameRecievedProcedure_body oip frm s = Some (s', r)"
  shows "grows s s'"
proof -
  have g: "\<And>k v. grows s (s\<lparr>arpTable := (arpTable s)(k \<mapsto> v)\<rparr>)"
    by (auto simp: grows_def)
  have h: "\<And>k v. grows s (successfulArpMessageRecieved (s\<lparr>arpTable := (arpTable s)(k \<mapsto> v)\<rparr>))"
    by (auto simp: grows_def successfulArpMessageRecieved_def)
  show ?thesis
    using assms(2)
    by (auto simp: arpFrameRecievedProcedure_body_def Let_def h
        split: sum.splits if_splits dest!: assms(1) intro: grows_trans [OF g])
qed

lemma output_body_grows:
  assumes "\<And>b s s' r. t b s = Some (s', r) \<Longrightarrow> grows s s'"
    and "output_body t p dst d s = Some (s', r)"
  shows "grows s s'"
  using assms(2)
  by (auto simp: output_body_def split: sum.splits dest!: assms(1))

lemma tx_body_grows:
  assumes "\<And>f s s' r. rcv f s = Some (s', r) \<Longrightarrow> grows s s'"
    and "tx_body rcv frm s = Some (s', r)"
  shows "grows s s'"
proof (cases "plugged s")
  case False
  with assms(2) show ?thesis
    by (simp add: tx_body_def)
next
  case True
  show ?thesis
  proof (cases "net s")
    case Nil
    with True assms(2) show ?thesis
      by (auto simp: tx_body_def Let_def grows_def)
  next
    case (Cons entry rest)
    obtain fs peer_error where entry: "entry = (fs, peer_error)"
      by (cases entry)
    let ?s2 = "s\<lparr>trace := trace s @ [Tx frm], net := rest\<rparr>"
    from True assms(2) Cons entry have t:
      "then_do (deliver_all rcv fs ?s2)
         (\<lambda>s2. case peer_error of None \<Rightarrow> Some (s2, Ok) | Some e \<Rightarrow> Some (s2, Raise e)) =
       Some (s', r)"
      by (simp add: tx_body_def Let_def)
    have "grows ?s2 s'"
    proof (rule then_do_grows [OF t])
      fix s1 o1
      assume "deliver_all rcv fs ?s2 = Some (s1, o1)"
      from deliver_all_grows [of rcv, OF assms(1) this] show "grows ?s2 s1" .
    next
      fix s1 s2 :: adapter and o2 :: outcome
      assume "(case peer_error of None \<Rightarrow> Some (s1, Ok) | Some e \<Rightarrow> Some (s1, Raise e)) =
        Some (s2, o2)"
      then have "s2 = s1"
        by (cases peer_error) simp_all
      then show "grows s1 s2"
        by simp
    qed
    then show ?thesis
      by (simp add: grows_def)
  qed
qed

lemma discover_loop_body_grows:
  assumes "\<And>b c s s' r. lp b c s = Some (s', r) \<Longrightarrow> grows s s'"
    and "\<And>p a d s s' r. out p a d s = Some (s', r) \<Longrightarrow> grows s s'"
    and "discover_loop_body lp out bs count s = Some (s', r)"
  shows "grows s s'"
proof (cases "count > 0")
  case False
  with assms(3) show ?thesis
    by (simp add: discover_loop_body_def)
next
  case True
  with assms(3) have t: "then_do (out MARE_PROTONUM BROADCAST_MAC bs s)
          (\<lambda>s1.
             let s2 = s1\<lparr>trace := trace s1 @ [TimeoutWait]\<rparr> in
             if arpMessageRecieved s2 then Some (s2\<lparr>arpMessageRecieved := False\<rparr>, Ok)
             else lp bs (count - 1) s2) = Some (s', r)"
    by (simp add: discover_loop_body_def)
  show ?thesis
  proof (rule then_do_grows [OF t])
    fix s1 o1
    assume "out MARE_PROTONUM BROADCAST_MAC bs s = Some (s1, o1)"
    then show "grows s s1"
      by (rule assms(2))
  next
    fix s1 s2 o2
    assume a: "(let s2 = s1\<lparr>trace := trace s1 @ [TimeoutWait]\<rparr> in
             if arpMessageRecieved s2 then Some (s2\<lparr>arpMessageRecieved := False\<rparr>, Ok)
             else lp bs (count - 1) s2) = Some (s2, o2)"
    have g: "grows s1 (s1\<lparr>trace := trace s1 @ [TimeoutWait]\<rparr>)"
      by (simp add: grows_def)
    show "grows s1 s2"
    proof (cases "arpMessageRecieved s1")
      case True
      with a show ?thesis
        by (auto simp: Let_def grows_def)
    next
      case False
      with a have "lp bs (count - 1) (s1\<lparr>trace := trace s1 @ [TimeoutWait]\<rparr>) = Some (s2, o2)"
        by (simp add: Let_def)
      from grows_trans [OF g assms(1) [OF this]] show ?thesis .
    qed
  qed
qed

lemma arpIpDiscoverProcess_body_grows:
  assumes "\<And>b c s s' r. lp b c s = Some (s', r) \<Longrightarrow> grows s s'"
    and "arpIpDiscoverProcess_body lp addr s = Some (s', r)"
  shows "grows s s'"
proof -
  have g: "grows s (s\<lparr>timeout := False\<rparr>)"
    by (simp add: grows_def)
  from assms(2) show ?thesis
    by (auto simp: arpIpDiscoverProcess_body_def Let_def dest!: assms(1)
        intro: grows_trans [OF g])
qed

lemma output_ip_body_grows:
  assumes "\<And>p a d s s' r. oip p a d s = Some (s', r) \<Longrightarrow> grows s s'"
    and "\<And>a s s' r. disc a s = Some (s', r) \<Longrightarrow> grows s s'"
    and "\<And>p a d s s' r. out p a d s = Some (s', r) \<Longrightarrow> grows s s'"
    and "output_ip_body oip disc out p addr d s = Some (s', r)"
  shows "grows s s'"
proof -
  consider (bad) "length addr \<noteq> 4"
    | (gw) "length addr = 4" "\<not> in_network s addr"
    | (hit) "length addr = 4" "in_network s addr" "addr \<in> dom (arpTable s)"
    | (miss) "length addr = 4" "in_network s addr" "addr \<notin> dom (arpTable s)"
    by blast
  then show ?thesis
  proof cases
    case bad
    with assms(4) show ?thesis
      by (simp add: output_ip_body_def domIff)
  next
    case gw
    with assms(4) have "then_do
          (if arpTable s (gateway s) = None then disc (gateway s) s else Some (s, Ok))
          (\<lambda>s1. oip p (gateway s1) d s1) = Some (s', r)"
      by (simp add: output_ip_body_def domIff)
    then show ?thesis
      by (rule then_do_grows) (auto split: if_splits dest: assms(1,2))
  next
    case hit
    with assms(4) have "out p (the (arpTable s addr)) d s = Some (s', r)"
      by (simp add: output_ip_body_def domIff)
    then show ?thesis
      by (rule assms(3))
  next
    case miss
    with assms(4) have "then_do (disc addr s) (\<lambda>s1. oip p addr d s1) = Some (s', r)"
      by (simp add: output_ip_body_def domIff)
    then show ?thesis
      by (rule then_do_grows) (auto dest: assms(1,2))
  qed
qed

lemma exec_grows: "exec n c s = Some (s', r) \<Longrightarrow> grows s s'"
proof (induction n arbitrary: c s s' r)
  case 0
  then show ?case by simp
next
  case (Suc n)
  show ?case
  proof (cases c)
    case (Call_rx frm)
    with Suc.prems show ?thesis
      by (auto elim!: rx_body_grows [rotated] dest: Suc.IH)
  next
    case (Call_arpFrameRecievedProcedure frm)
    with Suc.prems show ?thesis
      by (auto elim!: arpFrameRecievedProcedure_body_grows [rotated] dest: Suc.IH)
  next
    case (Call_output_ip p a d)
    with Suc.prems show ?thesis
      by (auto elim!: output_ip_body_grows [rotated 3] dest: Suc.IH)
  next
    case (Call_arpIpDiscoverProcess a)
    with Suc.prems show ?thesis
      by (auto elim!: arpIpDiscoverProcess_body_grows [rotated] dest: Suc.IH)
  next
    case (Call_discover_loop b k)
    with Suc.prems show ?thesis
      by (auto elim!: discover_loop_body_grows [rotated 2] dest: Suc.IH)
  next
    case (Call_output p a d)
    with Suc.prems show ?thesis
      by (auto elim!: output_body_grows [rotated] dest: Suc.IH)
  next
    case (Call_tx frm)
    with Suc.prems show ?thesis
      by (auto elim!: tx_body_grows [rotated] dest: Suc.IH)
  qed
qed


lemma output_ip_grows: "output_ip n p a d s = Some (s', r) \<Longrightarrow> grows s s'"
  unfolding output_ip_def by (rule exec_grows)

lemma arpIpDiscoverProcess_grows: "arpIpDiscoverProcess n a s = Some (s', r) \<Longrightarrow> grows s s'"
  unfolding arpIpDiscoverProcess_def by (rule exec_grows)

lemma adapter_output_grows: "adapter_output n p a d s = Some (s', r) \<Longrightarrow> grows s s'"
  unfolding adapter_output_def by (rule exec_grows)

lemma grows_in_network: "grows s s' \<Longrightarrow> in_network s' a = in_network s a"
  by (simp add: grows_def in_network_def)

lemma grows_dom: "grows s s' \<Longrightarrow> a \<in> dom (arpTable s) \<Longrightarrow> a \<in> dom (arpTable s')"
  by (auto simp: grows_def)

text \<open>
  Claim C9, amended. Whenever \<open>output_ip(_, a, _)\<close> returns successfully, the resolution
  cache afterwards contains an entry for the next hop of \<open>a\<close>: for \<open>a\<close> itself when
  \<open>a\<close> lies in the adapter's subnet, for the gateway otherwise.
\<close>

theorem output_ip_success_caches_next_hop:
  "output_ip n protonum a dgram s = Some (s', Ok) \<Longrightarrow> next_hop s a \<in> dom (arpTable s')"
proof (induction n arbitrary: a s)
  case 0
  then show ?case
    by (simp add: output_ip_def)
next
  case (Suc n)
  from Suc.prems have b: "output_ip_body (output_ip n) (arpIpDiscoverProcess n)
      (adapter_output n) protonum a dgram s = Some (s', Ok)"
    by (simp add: output_ip_Suc)
  consider (bad) "length a \<noteq> 4"
    | (gw) "length a = 4" "\<not> in_network s a"
    | (hit) "length a = 4" "in_network s a" "a \<in> dom (arpTable s)"
    | (miss) "length a = 4" "in_network s a" "a \<notin> dom (arpTable s)"
    by blast
  then show ?case
  proof cases
    case bad
    with b show ?thesis
      by (simp add: output_ip_body_def domIff)
  next
    case gw
    with b have "then_do
          (if arpTable s (gateway s) = None then arpIpDiscoverProcess n (gateway s) s
           else Some (s, Ok))
          (\<lambda>s1. output_ip n protonum (gateway s1) dgram s1) = Some (s', Ok)"
      by (simp add: output_ip_body_def domIff)
    from then_do_Ok [OF this] obtain s1 where
      r: "(if arpTable s (gateway s) = None then arpIpDiscoverProcess n (gateway s) s
           else Some (s, Ok)) = Some (s1, Ok)" and
      o: "output_ip n protonum (gateway s1) dgram s1 = Some (s', Ok)"
      by blast
    from r have g: "grows s s1"
      by (auto split: if_splits dest: arpIpDiscoverProcess_grows)
    from Suc.IH [OF o] have "gateway s1 \<in> dom (arpTable s')"
      by (simp add: next_hop_def)
    with g gw show ?thesis
      by (simp add: next_hop_def grows_def)
  next
    case hit
    with b have "adapter_output n protonum (the (arpTable s a)) dgram s = Some (s', Ok)"
      by (simp add: output_ip_body_def domIff)
    from grows_dom [OF adapter_output_grows [OF this] hit(3)] hit(2) show ?thesis
      by (simp add: next_hop_def)
  next
    case miss
    with b have "then_do (arpIpDiscoverProcess n a s)
        (\<lambda>s1. output_ip n protonum a dgram s1) = Some (s', Ok)"
      by (simp add: output_ip_body_def domIff)
    from then_do_Ok [OF this] obtain s1 where
      r: "arpIpDiscoverProcess n a s = Some (s1, Ok)" and
      o: "output_ip n protonum a dgram s1 = Some (s', Ok)"
      by blast
    from Suc.IH [OF o] grows_in_network [OF arpIpDiscoverProcess_grows [OF r], of a] miss(2)
    show ?thesis
      by (simp add: next_hop_def)
  qed
qed

lemma adapter_rx_bad_checksum:
  assumes "toFrame frm = Inr f" "snd (ConfirmChecksum f) = Inr False"
  shows "adapter_rx (Suc n) frm s = Some (s, Ok)"
proof -
  obtain cf where "ConfirmChecksum f = (cf, Inr False)"
    using assms(2) by (cases "ConfirmChecksum f") simp
  with assms(1) show ?thesis
    by (simp add: adapter_rx_Suc rx_body_def)
qed

lemma adv_refl: "adv s s []"
  unfolding adv_def by (rule exI [of _ 0]) simp

lemma adv_trans: "adv s s1 e1 \<Longrightarrow> adv s1 s2 e2 \<Longrightarrow> adv s s2 (e1 @ e2)"
  unfolding adv_def
proof -
  assume "\<exists>k. s1 = s\<lparr>trace := trace s @ e1, net := drop k (net s)\<rparr>"
    and "\<exists>k. s2 = s1\<lparr>trace := trace s1 @ e2, net := drop k (net s1)\<rparr>"
  then obtain k1 k2 where
    a: "s1 = s\<lparr>trace := trace s @ e1, net := drop k1 (net s)\<rparr>" and
    b: "s2 = s1\<lparr>trace := trace s1 @ e2, net := drop k2 (net s1)\<rparr>"
    by blast
  have "s2 = s\<lparr>trace := trace s @ e1 @ e2, net := drop (k2 + k1) (net s)\<rparr>"
    by (simp add: a b)
  then show "\<exists>k. s2 = s\<lparr>trace := trace s @ e1 @ e2, net := drop k (net s)\<rparr>"
    by blast
qed

lemma adv_trace: "adv s (s\<lparr>trace := trace s @ evs\<rparr>) evs"
  unfolding adv_def by (rule exI [of _ 0]) simp

lemma adv_fields:
  assumes "adv s s' evs"
  shows "hwaddr s' = hwaddr s" "iface_ip s' = iface_ip s" "plugged s' = plugged s"
    "arpTable s' = arpTable s" "arpMessageRecieved s' = arpMessageRecieved s"
    "timeout s' = timeout s" "trace s' = trace s @ evs" "gateway s' = gateway s"
    "iface_prefixlen s' = iface_prefixlen s"
  using assms by (auto simp: adv_def)

lemma arp_for_me_cong: "iface_ip s' = iface_ip s \<Longrightarrow> arp_for_me s' frm = arp_for_me s frm"
  by (simp add: arp_for_me_def toFrame_total)

lemma arp_for_me_trace [simp]: "arp_for_me (s\<lparr>trace := t\<rparr>) frm = arp_for_me s frm"
  by (rule arp_for_me_cong) simp

lemma arp_for_me_net [simp]: "arp_for_me (s\<lparr>net := t\<rparr>) frm = arp_for_me s frm"
  by (rule arp_for_me_cong) simp

lemma adv_net_subset:
  assumes "adv s s' evs"
  shows "set (net s') \<subseteq> set (net s)"
proof -
  from assms obtain k where "net s' = drop k (net s)"
    by (auto simp: adv_def)
  then show ?thesis
    by (simp add: set_drop_subset)
qed

lemma adv_quiet:
  assumes "adv s s' evs" "quiet_net s"
  shows "quiet_net s'"
  unfolding quiet_net_def
proof (intro ballI)
  fix r frm
  assume r: "r \<in> set (net s')" and frm: "frm \<in> set (fst r)"
  from assms(1) have i: "iface_ip s' = iface_ip s"
    by (auto simp: adv_def)
  from r adv_net_subset [OF assms(1)] have "r \<in> set (net s)"
    by auto
  with assms(2) frm have "\<not> arp_for_me s frm"
    by (simp add: quiet_net_def)
  then show "\<not> arp_for_me s' frm"
    by (simp add: arp_for_me_cong [OF i])
qed

lemma adv_returns:
  assumes "adv s s' evs" "link_returns s"
  shows "link_returns s'"
  using adv_net_subset [OF assms(1)] assms(2) unfolding link_returns_def by blast

lemma rx_body_decoded:
  assumes "toFrame frm = Inr f" "ConfirmChecksum f = (cf, Inr ok)"
  shows "rx_body arp frm s =
     (if \<not> ok then Some (s, Ok)
      else if protocol cf = MARE_PROTONUM then arp frm s
      else if hwaddr s = dstMacAdr cf \<or> BROADCAST_MAC = dstMacAdr cf then
        Some (s\<lparr>trace := trace s @ [Input (protocol cf) (datagram cf)]\<rparr>, Ok)
      else Some (s, Ok))"
  by (simp add: rx_body_def assms)

lemma decode_verify:
  "\<exists>f ok. toFrame frm = Inr f \<and> ConfirmChecksum f = (f\<lparr>checksum := []\<rparr>, Inr ok)"
proof -
  let ?f = "\<lparr>protocol = from_bytes_big (slice 0 6 frm), dstMacAdr = slice 6 12 frm,
          sourceMacAdr = slice 12 18 frm, datagram = slice_from 22 frm,
          checksum = slice 18 22 frm\<rparr>"
  have r: "0 \<le> protocol ?f" "protocol ?f < 2 ^ 48"
    using from_bytes_slice_range [of frm] by simp_all
  from ConfirmChecksum_ok [OF r] toFrame_total [of frm] show ?thesis
    by blast
qed

lemma rx_quiet:
  assumes "\<not> arp_for_me s frm"
  shows "\<exists>evs. adapter_rx (Suc (Suc n)) frm s = Some (s\<lparr>trace := trace s @ evs\<rparr>, Ok) \<and>
           (\<forall>e \<in> set evs. is_Input e)"
proof -
  from decode_verify [of frm] obtain f ok where
    t: "toFrame frm = Inr f" and c: "ConfirmChecksum f = (f\<lparr>checksum := []\<rparr>, Inr ok)"
    by blast
  note b = rx_body_decoded [OF t c, of "arpFrameRecievedProcedure (Suc n)" s]
  have a: "\<not> (ok \<and> protocol f = MARE_PROTONUM \<and>
              dstIpAdr (ArpFrame_toFrame (datagram f)) = iface_ip s)"
    using assms by (simp add: arp_for_me_def t c)
  have e: "s\<lparr>trace := trace s @ []\<rparr> = s"
    by simp
  consider (bad) "\<not> ok"
    | (mare) "ok" "protocol f = MARE_PROTONUM"
    | (mine) "ok" "protocol f \<noteq> MARE_PROTONUM"
        "hwaddr s = dstMacAdr f \<or> BROADCAST_MAC = dstMacAdr f"
    | (other) "ok" "protocol f \<noteq> MARE_PROTONUM"
        "\<not> (hwaddr s = dstMacAdr f \<or> BROADCAST_MAC = dstMacAdr f)"
    by blast
  then show ?thesis
  proof cases
    case bad
    then have "adapter_rx (Suc (Suc n)) frm s = Some (s\<lparr>trace := trace s @ []\<rparr>, Ok) \<and>
        (\<forall>e \<in> set []. is_Input e)"
      by (simp add: adapter_rx_Suc b)
    then show ?thesis
      by blast
  next
    case mare
    with a have d: "dstIpAdr (ArpFrame_toFrame (datagram f)) \<noteq> iface_ip s"
      by simp
    have "arpFrameRecievedProcedure (Suc n) frm s = Some (s, Ok)"
      using d by (simp add: arpFrameRecievedProcedure_Suc arpFrameRecievedProcedure_body_def t
          Let_def)
    with mare have "adapter_rx (Suc (Suc n)) frm s = Some (s\<lparr>trace := trace s @ []\<rparr>, Ok) \<and>
        (\<forall>e \<in> set []. is_Input e)"
      by (simp add: adapter_rx_Suc b)
    then show ?thesis
      by blast
  next
    case mine
    then have "adapter_rx (Suc (Suc n)) frm s =
        Some (s\<lparr>trace := trace s @ [Input (protocol f) (datagram f)]\<rparr>, Ok)"
      by (simp add: adapter_rx_Suc b)
    then have "adapter_rx (Suc (Suc n)) frm s =
        Some (s\<lparr>trace := trace s @ [Input (protocol f) (datagram f)]\<rparr>, Ok) \<and>
        (\<forall>e \<in> set [Input (protocol f) (datagram f)]. is_Input e)"
      by simp
    then show ?thesis
      by blast
  next
    case other
    then have "adapter_rx (Suc (Suc n)) frm s = Some (s\<lparr>trace := trace s @ []\<rparr>, Ok) \<and>
        (\<forall>e \<in> set []. is_Input e)"
      by (simp add: adapter_rx_Suc b)
    then show ?thesis
      by blast
  qed
qed

lemma deliver_quiet:
  assumes "\<forall>frm \<in> set fs. \<not> arp_for_me s frm"
  shows "\<exists>evs. deliver_all (adapter_rx (Suc (Suc n))) fs s =
             Some (s\<lparr>trace := trace s @ evs\<rparr>, Ok) \<and>
           (\<forall>e \<in> set evs. is_Input e)"
  using assms
proof (induction fs arbitrary: s)
  case Nil
  show ?case
    by (intro exI [of _ "[]"]) simp
next
  case (Cons frm fs)
  from Cons.prems have "\<not> arp_for_me s frm"
    by simp
  from rx_quiet [OF this, of n] obtain e1 where
    r: "adapter_rx (Suc (Suc n)) frm s = Some (s\<lparr>trace := trace s @ e1\<rparr>, Ok)" and
    i1: "\<forall>e \<in> set e1. is_Input e"
    by blast
  let ?s1 = "s\<lparr>trace := trace s @ e1\<rparr>"
  have "\<forall>frm \<in> set fs. \<not> arp_for_me ?s1 frm"
    using Cons.prems by simp
  from Cons.IH [OF this] obtain e2 where
    d: "deliver_all (adapter_rx (Suc (Suc n))) fs ?s1 =
          Some (?s1\<lparr>trace := trace ?s1 @ e2\<rparr>, Ok)" and
    i2: "\<forall>e \<in> set e2. is_Input e"
    by blast
  have "deliver_all (adapter_rx (Suc (Suc n))) (frm # fs) s =
      Some (s\<lparr>trace := trace s @ (e1 @ e2)\<rparr>, Ok)"
    using r d by (simp add: then_do_def)
  moreover have "\<forall>e \<in> set (e1 @ e2). is_Input e"
    using i1 i2 by auto
  ultimately show ?case
    by blast
qed

lemma tx_quiet:
  assumes "quiet_net s" "link_returns s"
  shows "\<exists>evs s'. adapter_tx (Suc (Suc (Suc n))) frm s = Some (s', Ok) \<and>
           adv s s' ((if plugged s then [Tx frm] else []) @ evs) \<and>
           (\<forall>e \<in> set evs. is_Input e)"
proof (cases "plugged s")
  case False
  then have "adapter_tx (Suc (Suc (Suc n))) frm s = Some (s, Ok)"
    by (simp add: adapter_tx_Suc tx_body_def)
  with False adv_refl [of s] have "adapter_tx (Suc (Suc (Suc n))) frm s = Some (s, Ok) \<and>
      adv s s ((if plugged s then [Tx frm] else []) @ []) \<and> (\<forall>e \<in> set []. is_Input e)"
    by simp
  then show ?thesis
    by blast
next
  case True
  let ?s1 = "s\<lparr>trace := trace s @ [Tx frm]\<rparr>"
  show ?thesis
  proof (cases "net s")
    case Nil
    with True have "adapter_tx (Suc (Suc (Suc n))) frm s = Some (?s1, Ok)"
      by (simp add: adapter_tx_Suc tx_body_def Let_def)
    with True adv_trace [of s "[Tx frm]"] have
      "adapter_tx (Suc (Suc (Suc n))) frm s = Some (?s1, Ok) \<and>
       adv s ?s1 ((if plugged s then [Tx frm] else []) @ []) \<and> (\<forall>e \<in> set []. is_Input e)"
      by simp
    then show ?thesis
      by blast
  next
    case (Cons entry rest)
    obtain fs peer_error where entry: "entry = (fs, peer_error)"
      by (cases entry)
    have pe: "peer_error = None"
      using assms(2) Cons entry by (simp add: link_returns_def)
    let ?s2 = "?s1\<lparr>net := rest\<rparr>"
    have "\<forall>frm \<in> set fs. \<not> arp_for_me ?s2 frm"
      using assms(1) Cons entry by (simp add: quiet_net_def)
    from deliver_quiet [OF this, of n] obtain evs where
      d: "deliver_all (adapter_rx (Suc (Suc n))) fs ?s2 =
            Some (?s2\<lparr>trace := trace ?s2 @ evs\<rparr>, Ok)" and
      i: "\<forall>e \<in> set evs. is_Input e"
      by blast
    let ?s3 = "?s2\<lparr>trace := trace ?s2 @ evs\<rparr>"
    have t: "adapter_tx (Suc (Suc (Suc n))) frm s = Some (?s3, Ok)"
      using True Cons entry pe d by (simp add: adapter_tx_Suc tx_body_def Let_def then_do_def)
    have "?s3 = s\<lparr>trace := trace s @ ([Tx frm] @ evs), net := drop 1 (net s)\<rparr>"
      using Cons by simp
    then have "adv s ?s3 ([Tx frm] @ evs)"
      unfolding adv_def by blast
    with t i True have
      "adapter_tx (Suc (Suc (Suc n))) frm s = Some (?s3, Ok) \<and>
       adv s ?s3 ((if plugged s then [Tx frm] else []) @ evs) \<and> (\<forall>e \<in> set evs. is_Input e)"
      by simp
    then show ?thesis
      by blast
  qed
qed

lemma output_quiet:
  assumes "quiet_net s" "encode p d (hwaddr s) g = Inr bs" "link_returns s"
  shows "\<exists>evs s'. adapter_output (Suc (Suc (Suc (Suc n)))) p d g s = Some (s', Ok) \<and>
           adv s s' ((if plugged s then [Tx bs] else []) @ evs) \<and>
           (\<forall>e \<in> set evs. is_Input e)"
proof -
  have "adapter_output (Suc (Suc (Suc (Suc n)))) p d g s = adapter_tx (Suc (Suc (Suc n))) bs s"
    using assms(2)
    by (auto simp: adapter_output_Suc output_body_def encode_def split: sum.splits)
  with tx_quiet [OF assms(1) assms(3), of n bs] show ?thesis
    by simp
qed


lemma encode_request: "\<exists>req. encode MARE_PROTONUM d s g = Inr req"
  by (simp add: encode_def Frame_ok toBytes_def to_bytes_big_6 MARE_PROTONUM_def)

lemma filter_inputs:
  "\<forall>e \<in> set evs. is_Input e \<Longrightarrow> filter (\<lambda>e. \<not> is_Input e) evs = []"
  by (induction evs) auto

lemma loop_quiet:
  assumes "quiet_net s" "\<not> arpMessageRecieved s"
    and "encode MARE_PROTONUM BROADCAST_MAC (hwaddr s) pl = Inr req" "c + 5 \<le> m"
    and "link_returns s"
  shows "\<exists>evs s'. discover_loop m pl c s = Some (s', Raise NoRouteToHost) \<and> adv s s' evs \<and>
           filter (\<lambda>e. \<not> is_Input e) evs =
             concat (replicate c ((if plugged s then [Tx req] else []) @ [TimeoutWait]))"
  using assms
proof (induction c arbitrary: m s)
  case 0
  then obtain m' where m: "m = Suc m'"
    by (cases m) auto
  have "discover_loop m pl 0 s = Some (s, Raise NoRouteToHost) \<and> adv s s [] \<and>
      filter (\<lambda>e. \<not> is_Input e) [] =
        concat (replicate 0 ((if plugged s then [Tx req] else []) @ [TimeoutWait]))"
    by (simp add: m discover_loop_Suc discover_loop_body_def adv_refl)
  then show ?case
    by blast
next
  case (Suc c)
  let ?txp = "if plugged s then [Tx req] else []"
  from Suc.prems(4) have "5 \<le> m"
    by simp
  then obtain k where "m = 5 + k"
    using le_Suc_ex by blast
  then have m: "m = Suc (Suc (Suc (Suc (Suc k))))"
    by simp
  let ?m' = "Suc (Suc (Suc (Suc k)))"
  from output_quiet [OF Suc.prems(1) Suc.prems(3) Suc.prems(5), of k] obtain e1 s1 where
    o: "adapter_output ?m' MARE_PROTONUM BROADCAST_MAC pl s = Some (s1, Ok)" and
    a1: "adv s s1 (?txp @ e1)" and i1: "\<forall>e \<in> set e1. is_Input e"
    by blast
  let ?s2 = "s1\<lparr>trace := trace s1 @ [TimeoutWait]\<rparr>"
  have a2: "adv s ?s2 ((?txp @ e1) @ [TimeoutWait])"
    by (rule adv_trans [OF a1 adv_trace])
  have q2: "quiet_net ?s2"
    by (rule adv_quiet [OF a2 Suc.prems(1)])
  have r2: "link_returns ?s2"
    by (rule adv_returns [OF a2 Suc.prems(5)])
  have f2: "\<not> arpMessageRecieved ?s2" "hwaddr ?s2 = hwaddr s" "plugged ?s2 = plugged s"
    using adv_fields [OF a2] Suc.prems(2) by simp_all
  have enc2: "encode MARE_PROTONUM BROADCAST_MAC (hwaddr ?s2) pl = Inr req"
    using Suc.prems(3) f2(2) by simp
  have le: "c + 5 \<le> ?m'"
    using Suc.prems(4) m by simp
  from Suc.IH [OF q2 f2(1) enc2 le r2] obtain e2 s' where
    l: "discover_loop ?m' pl c ?s2 = Some (s', Raise NoRouteToHost)" and
    a3: "adv ?s2 s' e2" and
    fl: "filter (\<lambda>e. \<not> is_Input e) e2 = concat (replicate c (?txp @ [TimeoutWait]))"
    using f2(3) by auto
  have step: "discover_loop m pl (Suc c) s = Some (s', Raise NoRouteToHost)"
    using o l f2(1) by (simp add: m discover_loop_Suc [of ?m'] discover_loop_body_def
        then_do_def Let_def)
  have a4: "adv s s' (((?txp @ e1) @ [TimeoutWait]) @ e2)"
    by (rule adv_trans [OF a2 a3])
  have "filter (\<lambda>e. \<not> is_Input e) (((?txp @ e1) @ [TimeoutWait]) @ e2) =
      concat (replicate (Suc c) (?txp @ [TimeoutWait]))"
    using fl filter_inputs [OF i1] by simp
  with step a4 show ?case
    by blast
qed


lemma discover_quiet:
  assumes "quiet_net s" "\<not> arpMessageRecieved s" "9 \<le> m"
    and "encode MARE_PROTONUM BROADCAST_MAC (hwaddr s)
           (ArpFrame_toBytes (ArpFrame (hwaddr s) (hwaddr s) addr (iface_ip s) False)) = Inr req"
    and "link_returns s"
  shows "\<exists>evs s'. arpIpDiscoverProcess m addr s = Some (s', Raise NoRouteToHost) \<and>
           arpTable s' = arpTable s \<and> trace s' = trace s @ evs \<and>
           filter (\<lambda>e. \<not> is_Input e) evs =
             concat (replicate 3 ((if plugged s then [Tx req] else []) @ [TimeoutWait]))"
proof -
  from assms(3) obtain k where "m = 9 + k"
    using le_Suc_ex by blast
  then have m: "m = Suc (8 + k)"
    by simp
  let ?s0 = "s\<lparr>timeout := False\<rparr>"
  let ?pl = "ArpFrame_toBytes (ArpFrame (hwaddr s) (hwaddr s) addr (iface_ip s) False)"
  have i: "iface_ip ?s0 = iface_ip s"
    by simp
  have q: "quiet_net ?s0"
    using assms(1) unfolding quiet_net_def arp_for_me_cong [OF i] by simp
  have e: "encode MARE_PROTONUM BROADCAST_MAC (hwaddr ?s0) ?pl = Inr req"
    using assms(4) by simp
  have r: "link_returns ?s0"
    using assms(5) by (simp add: link_returns_def)
  from loop_quiet [OF q _ e _ r, of 3 "8 + k"] assms(2) obtain evs s' where
    l: "discover_loop (8 + k) ?pl 3 ?s0 = Some (s', Raise NoRouteToHost)" and
    a: "adv ?s0 s' evs" and
    f: "filter (\<lambda>e. \<not> is_Input e) evs =
          concat (replicate 3 ((if plugged s then [Tx req] else []) @ [TimeoutWait]))"
    by auto
  have "arpIpDiscoverProcess m addr s = Some (s', Raise NoRouteToHost)"
    unfolding m arpIpDiscoverProcess_Suc arpIpDiscoverProcess_body_def Let_def by (rule l)
  moreover have "arpTable s' = arpTable s" "trace s' = trace s @ evs"
    using adv_fields [OF a] by simp_all
  ultimately show ?thesis
    using f by blast
qed

lemma filter_Tx_inputs:
  "filter is_Tx evs = filter is_Tx (filter (\<lambda>e. \<not> is_Input e) evs)"
proof (induction evs)
  case Nil
  show ?case by simp
next
  case (Cons e evs)
  then show ?case
    by (cases e) simp_all
qed

text \<open>
  Claim C4, amended. \<open>output_ip\<close> is called with a 4-byte address whose next hop (the
  address itself when it lies in the adapter's subnet, the gateway otherwise) is not in
  the resolution cache; no success signal has arrived (the flag is unset); while the call
  runs the link delivers no checksum-valid resolution frame whose destination address is
  the adapter's, so that no success signal arrives, and no exception raised in another node
  comes back through the link. Then, for every bound of at least 10 on the call depth, the
  call returns by raising NoRouteToHost; the broadcast request for the next hop has been
  handed to the link at most three times (three times when a link is plugged, never
  otherwise), each time followed by one \<open>timeout.wait(0.1)\<close>; and the resolution cache is
  the one before the call. (The events left out by the filter are upper-layer deliveries of
  frames received meanwhile.)
\<close>

theorem output_ip_no_route:
  assumes "length addr = 4"
    and "next_hop s addr \<notin> dom (arpTable s)"
    and "\<not> arpMessageRecieved s"
    and "quiet_net s"
    and "link_returns s"
    and "10 \<le> n"
  shows "\<exists>req evs s'.
           encode MARE_PROTONUM BROADCAST_MAC (hwaddr s)
             (ArpFrame_toBytes
                (ArpFrame (hwaddr s) (hwaddr s) (next_hop s addr) (iface_ip s) False)) = Inr req \<and>
           output_ip n protonum addr dgram s = Some (s', Raise NoRouteToHost) \<and>
           arpTable s' = arpTable s \<and> trace s' = trace s @ evs \<and>
           length (filter is_Tx evs) \<le> 3 \<and>
           filter (\<lambda>e. \<not> is_Input e) evs =
             concat (replicate 3 ((if plugged s then [Tx req] else []) @ [TimeoutWait]))"
proof -
  let ?hop = "next_hop s addr"
  let ?pl = "ArpFrame_toBytes (ArpFrame (hwaddr s) (hwaddr s) ?hop (iface_ip s) False)"
  from encode_request [of BROADCAST_MAC "hwaddr s" ?pl] obtain req where
    e: "encode MARE_PROTONUM BROADCAST_MAC (hwaddr s) ?pl = Inr req"
    by blast
  from assms(6) obtain k where "n = 10 + k"
    using le_Suc_ex by blast
  then have n: "n = Suc (9 + k)"
    by simp
  from discover_quiet [OF assms(4) assms(3) _ e assms(5), of "9 + k"] obtain evs s' where
    d: "arpIpDiscoverProcess (9 + k) ?hop s = Some (s', Raise NoRouteToHost)" and
    r: "arpTable s' = arpTable s" "trace s' = trace s @ evs"
       "filter (\<lambda>e. \<not> is_Input e) evs =
          concat (replicate 3 ((if plugged s then [Tx req] else []) @ [TimeoutWait]))"
    by auto
  have "output_ip n protonum addr dgram s = Some (s', Raise NoRouteToHost)"
  proof (cases "in_network s addr")
    case True
    with assms(1,2) d show ?thesis
      unfolding n output_ip_Suc
      by (simp add: output_ip_body_def next_hop_def then_do_def domIff)
  next
    case False
    with assms(1,2) d show ?thesis
      unfolding n output_ip_Suc
      by (simp add: output_ip_body_def next_hop_def then_do_def domIff)
  qed
  moreover have "length (filter is_Tx evs) \<le> 3"
    unfolding filter_Tx_inputs [of evs] r(3) by (simp add: numeral_3_eq_3)
  ultimately show ?thesis
    using e r by blast
qed

text \<open>
  Claim C4 says that \<open>output_ip\<close> for an address that is not in the resolution cache,
  when no success signal arrives, transmits the request at most three times, waits after
  each transmission, raises NoRouteToHost and leaves the cache unchanged. Three runs of
  the code, each from an unset flag and with no success signal arriving, show otherwise.
  First, for an address outside the subnet the cache is consulted for the gateway, not for
  the address: with the gateway cached the call returns normally after one unicast frame.
  Second, \<open>link.tx\<close> catches nothing: when another node raises NoRouteToHost while the
  first request is being delivered (its own reply found no route), the exception ends the
  call after one transmission and before any wait. Third, a resolution request of another
  node for this adapter's address, delivered during the first transmission, is learned
  from: when NoRouteToHost is raised the cache has a new entry.
\<close>

theorem output_ip_unresolved_counterexample:
  "arpTable adapter_a_gw [10, 23, 49, 224] = None \<and>
   \<not> arpMessageRecieved adapter_a_gw \<and> net adapter_a_gw = [] \<and>
   outcome_of (output_ip 5 0x1e1b [10, 23, 49, 224] [1, 2] adapter_a_gw) = Some Ok \<and>
   trace_of (output_ip 5 0x1e1b [10, 23, 49, 224] [1, 2] adapter_a_gw) =
     Some [Tx [0, 0, 0, 0, 30, 27, 212, 170, 23, 82, 28, 32, 29, 227, 173, 252, 70, 246,
               0, 0, 0, 30, 1, 2]] \<and>
   arpTable adapter_a [10, 23, 41, 11] = None \<and> \<not> arpMessageRecieved adapter_a \<and>
   outcome_of (output_ip 10 0x6789 [10, 23, 41, 11] [110, 111, 112, 101]
       (adapter_a\<lparr>net := [([], Some NoRouteToHost)]\<rparr>)) = Some (Raise NoRouteToHost) \<and>
   trace_of (output_ip 10 0x6789 [10, 23, 41, 11] [110, 111, 112, 101]
       (adapter_a\<lparr>net := [([], Some NoRouteToHost)]\<rparr>)) =
     Some [Tx [0, 0, 0, 0, 8, 6, 255, 255, 255, 255, 255, 255, 29, 227, 173, 252, 70, 246,
               0, 0, 0, 217, 29, 227, 173, 252, 70, 246, 29, 227, 173, 252, 70, 246,
               10, 23, 41, 11, 10, 23, 42, 192]] \<and>
   arpTable adapter_a [10, 23, 40, 74] = None \<and>
   outcome_of (output_ip 12 0x6789 [10, 23, 41, 11] [110, 111, 112, 101]
       (adapter_a\<lparr>net := [([[0, 0, 0, 0, 8, 6, 255, 255, 255, 255, 255, 255, 127, 54, 204, 67,
          44, 141, 0, 0, 0, 225, 127, 54, 204, 67, 44, 141, 127, 54, 204, 67, 44, 141,
          10, 23, 42, 192, 10, 23, 40, 74]], None)]\<rparr>)) = Some (Raise NoRouteToHost) \<and>
   cache_after (output_ip 12 0x6789 [10, 23, 41, 11] [110, 111, 112, 101]
       (adapter_a\<lparr>net := [([[0, 0, 0, 0, 8, 6, 255, 255, 255, 255, 255, 255, 127, 54, 204, 67,
          44, 141, 0, 0, 0, 225, 127, 54, 204, 67, 44, 141, 127, 54, 204, 67, 44, 141,
          10, 23, 42, 192, 10, 23, 40, 74]], None)]\<rparr>)) [10, 23, 40, 74] =
     Some [127, 54, 204, 67, 44, 141]"
  by code_simp

theorem output_ip_no_route_witness:
  "outcome_of (output_ip 10 0x6789 [10, 23, 41, 11] [110, 111, 112, 101]
       (adapter_a\<lparr>net := [([[0, 0, 0, 0, 240, 15, 255, 255, 255, 255, 255, 255, 127, 54, 204,
                              67, 44, 141, 0, 0, 0, 153, 104, 105]], None), ([], None),
                            ([[1, 2, 3]], None)]\<rparr>)) =
     Some (Raise NoRouteToHost) \<and>
   cache_after (output_ip 10 0x6789 [10, 23, 41, 11] [110, 111, 112, 101]
       (adapter_a\<lparr>net := [([[0, 0, 0, 0, 240, 15, 255, 255, 255, 255, 255, 255, 127, 54, 204,
                              67, 44, 141, 0, 0, 0, 153, 104, 105]], None), ([], None),
                            ([[1, 2, 3]], None)]\<rparr>))
     [10, 23, 41, 11] = None \<and>
   filter (\<lambda>e. \<not> is_Input e)
     (the (trace_of (output_ip 10 0x6789 [10, 23, 41, 11] [110, 111, 112, 101]
       (adapter_a\<lparr>net := [([[0, 0, 0, 0, 240, 15, 255, 255, 255, 255, 255, 255, 127, 54, 204,
                              67, 44, 141, 0, 0, 0, 153, 104, 105]], None), ([], None),
                            ([[1, 2, 3]], None)]\<rparr>)))) =
     concat (replicate 3
       [Tx [0, 0, 0, 0, 8, 6, 255, 255, 255, 255, 255, 255, 29, 227, 173, 252, 70, 246,
            0, 0, 0, 217, 29, 227, 173, 252, 70, 246, 29, 227, 173, 252, 70, 246,
            10, 23, 41, 11, 10, 23, 42, 192],
        TimeoutWait])"
proof -
  let ?f1 = "[0, 0, 0, 0, 240, 15, 255, 255, 255, 255, 255, 255, 127, 54, 204,
              67, 44, 141, 0, 0, 0, 153, 104, 105] :: bytes"
  let ?s = "adapter_a\<lparr>net := [([?f1], None), ([], None), ([[1, 2, 3]], None)]\<rparr>"
  let ?addr = "[10, 23, 41, 11] :: bytes"
  let ?req = "[0, 0, 0, 0, 8, 6, 255, 255, 255, 255, 255, 255, 29, 227, 173, 252, 70, 246,
            0, 0, 0, 217, 29, 227, 173, 252, 70, 246, 29, 227, 173, 252, 70, 246,
            10, 23, 41, 11, 10, 23, 42, 192] :: bytes"
  let ?r = "output_ip 10 0x6789 ?addr [110, 111, 112, 101] ?s"
  have h1: "length ?addr = 4"
    by simp
  have nh: "next_hop ?s ?addr = ?addr"
    by code_simp
  have h2: "next_hop ?s ?addr \<notin> dom (arpTable ?s)"
    unfolding nh by (simp add: adapter_a_def)
  have h3: "\<not> arpMessageRecieved ?s"
    by (simp add: adapter_a_def)
  have q1: "\<not> arp_for_me ?s ?f1"
    by code_simp
  have q2: "\<not> arp_for_me ?s [1, 2, 3]"
    by code_simp
  have h4: "quiet_net ?s"
    using q1 q2 by (simp add: quiet_net_def)
  have e: "encode MARE_PROTONUM BROADCAST_MAC (hwaddr ?s)
      (ArpFrame_toBytes (ArpFrame (hwaddr ?s) (hwaddr ?s) (next_hop ?s ?addr) (iface_ip ?s) False)) =
      Inr ?req"
    unfolding nh by code_simp
  have h5: "link_returns ?s"
    by (simp add: link_returns_def)
  have p: "plugged ?s"
    by (simp add: adapter_a_def)
  from output_ip_no_route [OF h1 h2 h3 h4 h5, of 10 "0x6789" "[110, 111, 112, 101]"] e p
  obtain evs s' where
    o: "?r = Some (s', Raise NoRouteToHost)" and
    c: "arpTable s' = arpTable ?s" and
    t: "trace s' = trace ?s @ evs" and
    f: "filter (\<lambda>e. \<not> is_Input e) evs = concat (replicate 3 ([Tx ?req] @ [TimeoutWait]))"
    by auto
  have "outcome_of ?r = Some (Raise NoRouteToHost)"
    using o by (simp add: outcome_of_def)
  moreover have "cache_after ?r ?addr = None"
    using o c by (simp add: cache_after_def adapter_a_def)
  moreover have "filter (\<lambda>e. \<not> is_Input e) (the (trace_of ?r)) =
      concat (replicate 3 [Tx ?req, TimeoutWait])"
    using o t f by (simp add: trace_of_def adapter_a_def)
  ultimately show ?thesis
    by blast
qed

text \<open>
  Claim C9 says that after a successful \<open>output_ip(_, a, _)\<close> the cache has an entry for
  \<open>a\<close>, for every address \<open>a\<close>. For 192.138.89.25, outside the subnet, the call
  succeeds through the cached gateway and the cache has no entry for the address.
\<close>

theorem output_ip_off_subnet_counterexample:
  "outcome_of (output_ip 5 0x1e1c [192, 138, 89, 25] [3, 4] adapter_a_gw) = Some Ok \<and>
   cache_after (output_ip 5 0x1e1c [192, 138, 89, 25] [3, 4] adapter_a_gw)
     [192, 138, 89, 25] = None"
  by code_simp

theorem output_ip_success_caches_next_hop_witness:
  "outcome_of (output_ip 12 0x3250 [10, 23, 41, 100] [1, 2]
     (adapter_a\<lparr>net := [([[0, 0, 0, 0, 8, 6, 29, 227, 173, 252, 70, 246, 30, 120, 6, 20, 72,
        226, 0, 0, 0, 225, 29, 227, 173, 252, 70, 246, 30, 120, 6, 20, 72, 226, 10, 23, 42, 192,
        10, 23, 41, 100, 48, 120, 102, 102]], None)]\<rparr>)) = Some Ok \<and>
   (\<exists>s'. output_ip 12 0x3250 [10, 23, 41, 100] [1, 2]
     (adapter_a\<lparr>net := [([[0, 0, 0, 0, 8, 6, 29, 227, 173, 252, 70, 246, 30, 120, 6, 20, 72,
        226, 0, 0, 0, 225, 29, 227, 173, 252, 70, 246, 30, 120, 6, 20, 72, 226, 10, 23, 42, 192,
        10, 23, 41, 100, 48, 120, 102, 102]], None)]\<rparr>) = Some (s', Ok) \<and>
      [10, 23, 41, 100] \<in> dom (arpTable s'))"
proof -
  let ?reply = "[0, 0, 0, 0, 8, 6, 29, 227, 173, 252, 70, 246, 30, 120, 6, 20, 72,
        226, 0, 0, 0, 225, 29, 227, 173, 252, 70, 246, 30, 120, 6, 20, 72, 226, 10, 23, 42, 192,
        10, 23, 41, 100, 48, 120, 102, 102] :: bytes"
  let ?s = "adapter_a\<lparr>net := [([?reply], None)]\<rparr>"
  let ?r = "output_ip 12 0x3250 [10, 23, 41, 100] [1, 2] ?s"
  have ok: "outcome_of ?r = Some Ok"
    by code_simp
  then obtain s' where r: "?r = Some (s', Ok)"
    by (auto simp: outcome_of_def)
  have nh: "next_hop ?s [10, 23, 41, 100] = [10, 23, 41, 100]"
    by code_simp
  from output_ip_success_caches_next_hop [OF r] have "[10, 23, 41, 100] \<in> dom (arpTable s')"
    unfolding nh .
  with ok r show ?thesis
    by blast
qed

section \<open>Frames with a bad checksum\<close>

text \<open>
  Claim C7. A received buffer whose decoded frame fails checksum verification: the
  adapter's \<open>rx\<close> returns with the adapter unchanged (nothing added to the trace: no
  upper-layer delivery, no reply; the cache as before), and the switch's \<open>rx\<close> returns with the
  switch (and so its table) unchanged and without any transmission.
\<close>

theorem bad_checksum_dropped:
  assumes "toFrame frm = Inr f" "snd (ConfirmChecksum f) = Inr False"
  shows "adapter_rx (Suc n) frm s = Some (s, Ok) \<and>
         switch_rx link_tx sw port frm = (sw, [], None)"
  using adapter_rx_bad_checksum [OF assms] switch_rx_bad_checksum [OF assms] by simp

theorem bad_checksum_dropped_witness:
  "adapter_rx 1 [0, 0, 0, 0, 0, 1, 1, 2, 3, 4, 5, 6, 6, 5, 4, 3, 2, 1, 0, 0, 0, 9, 9]
      adapter_a = Some (adapter_a, Ok) \<and>
   switch_rx (\<lambda>l b. None)
      \<lparr>nports = 3, ports = [Some (10 :: nat), Some 11, Some 12],
        switchingTable = Map.empty\<rparr> 0
      [0, 0, 0, 0, 0, 1, 1, 2, 3, 4, 5, 6, 6, 5, 4, 3, 2, 1, 0, 0, 0, 9, 9] =
     (\<lparr>nports = 3, ports = [Some 10, Some 11, Some 12], switchingTable = Map.empty\<rparr>,
      [], None)"
proof -
  let ?bs = "[0, 0, 0, 0, 0, 1, 1, 2, 3, 4, 5, 6, 6, 5, 4, 3, 2, 1, 0, 0, 0, 9, 9] :: bytes"
  let ?f = "\<lparr>protocol = 1, dstMacAdr = [1, 2, 3, 4, 5, 6], sourceMacAdr = [6, 5, 4, 3, 2, 1],
             datagram = [9], checksum = [0, 0, 0, 9]\<rparr>"
  have d: "toFrame ?bs = Inr ?f"
    by code_simp
  have v: "snd (ConfirmChecksum ?f) = Inr False"
    by code_simp
  show ?thesis
    using bad_checksum_dropped [OF d v, of 0 adapter_a "\<lambda>(l :: nat) b. None"] by simp
qed

end
